theory Spec2Isabelle
  imports Main "HOL-Library.AList"
begin

section \<open>Price scalar\<close>

text \<open>
  Modelled from the spec: the price type \<open>F\<close> (\<open>typedef Fixed<7> F\<close> in order.h; the
  header fixed.h of the external cpp_fixed library is not among the sources). The spec asks
  for a totally ordered scalar with exact equality, two sentinels above and below every
  finite price (\<open>F(DBL_MAX)\<close> and \<open>F(-DBL_MAX)\<close> in the code), and the arithmetic of the
  VWAP update. A finite price is its raw value scaled by \<open>10^7\<close>, so 1.0 is
  \<open>Fin 10000000\<close>. The spec says nothing about arithmetic on a sentinel; here a sentinel
  absorbs. Division by zero is left to the caller (\<open>fill\<close>).
\<close>

datatype F = MinusMax | Fin int | PlusMax

instantiation F :: linorder
begin

definition less_eq_F :: "F \<Rightarrow> F \<Rightarrow> bool" where
  "less_eq_F x y =
     (case x of
        MinusMax \<Rightarrow> True
      | Fin a \<Rightarrow> (case y of MinusMax \<Rightarrow> False | Fin b \<Rightarrow> a \<le> b | PlusMax \<Rightarrow> True)
      | PlusMax \<Rightarrow> (case y of PlusMax \<Rightarrow> True | _ \<Rightarrow> False))"

definition less_F :: "F \<Rightarrow> F \<Rightarrow> bool" where
  "less_F x y = (x \<le> y \<and> \<not> y \<le> (x::F))"

instance
  by standard (auto simp: less_eq_F_def less_F_def split: F.splits)

end

fun F_times :: "F \<Rightarrow> int \<Rightarrow> F" where
  "F_times (Fin a) n = Fin (a * n)"
| "F_times s n = s"

fun F_plus :: "F \<Rightarrow> F \<Rightarrow> F" where
  "F_plus (Fin a) (Fin b) = Fin (a + b)"
| "F_plus (Fin a) s = s"
| "F_plus s y = s"

fun F_div :: "F \<Rightarrow> int \<Rightarrow> F" where
  "F_div (Fin a) n = Fin (a div n)"
| "F_div s n = s"

section \<open>Orders (order.h)\<close>

datatype Side = BUY | SELL

text \<open>
  An \<open>Order\<close> object. \<open>onList\<close> is the state of the order's own list node:
  \<open>isOnList()\<close> is \<open>!node->order.expired()\<close>, and the node's weak back-reference is set
  by \<open>OrderList::pushback\<close> and reset by \<open>OrderList::remove\<close>. Quantities are C++
  \<open>int\<close>s, taken here as mathematical integers (signed overflow is undefined in C++).
\<close>

record Order =
  sessionId :: string
  orderId :: string
  instrument :: string
  exchangeId :: nat
  side :: Side
  remaining :: int
  filled :: int
  price :: F
  quantity :: int
  cumQty :: int
  avgPrice :: F
  onList :: bool

text \<open>The constructor \<open>Order(sessionId, orderId, instrument, price, quantity, side, exchangeId)\<close>.\<close>

definition Order_create :: "string \<Rightarrow> string \<Rightarrow> string \<Rightarrow> F \<Rightarrow> int \<Rightarrow> Side \<Rightarrow> nat \<Rightarrow> Order" where
  "Order_create sid oid instr p q sd eid =
     \<lparr> sessionId = sid, orderId = oid, instrument = instr, exchangeId = eid, side = sd,
       remaining = q, filled = 0, price = p, quantity = q, cumQty = 0, avgPrice = Fin 0,
       onList = False \<rparr>"

text \<open>
  \<open>Order::fill\<close>. The divisor of the VWAP update is \<open>_cumQty + quantity\<close>; the result is
  \<open>None\<close> when it is zero (what \<open>Fixed<7>\<close> does then is not in the sources).
\<close>

definition fill :: "int \<Rightarrow> F \<Rightarrow> Order \<Rightarrow> Order option" where
  "fill qty p ord =
     (if cumQty ord + qty = 0 then None
      else Some (ord\<lparr> remaining := remaining ord - qty,
                      filled := filled ord + qty,
                      avgPrice := F_div (F_plus (F_times (avgPrice ord) (cumQty ord)) (F_times p qty))
                                        (cumQty ord + qty),
                      cumQty := cumQty ord + qty \<rparr>))"

definition cancel :: "Order \<Rightarrow> Order" where
  "cancel ord = ord\<lparr> remaining := 0 \<rparr>"

definition isMarket :: "Order \<Rightarrow> bool" where
  "isMarket ord = (price ord = PlusMax \<or> price ord = MinusMax)"

definition isCancelled :: "Order \<Rightarrow> bool" where
  "isCancelled ord = (remaining ord = 0 \<and> filled ord \<noteq> quantity ord)"

definition isFilled :: "Order \<Rightarrow> bool" where
  "isFilled ord = (remaining ord = 0 \<and> filled ord = quantity ord)"

definition isActive :: "Order \<Rightarrow> bool" where
  "isActive ord = (remaining ord > 0)"

section \<open>Outcomes\<close>

text \<open>
  A call returns (\<open>Done\<close>, with its value and the state), throws a \<open>std::runtime_error\<close>
  (\<open>Throw\<close>, with the state at the throw, which a \<open>catch\<close> clause sees), or leaves the
  behaviour the model describes (\<open>Fault\<close>): a null pointer is dereferenced, the VWAP
  divisor is zero, a list node is linked or unlinked while it sits in another list,
  where the sequence that stands for the doubly-linked list no longer describes the pointers,
  or an array is read outside its bounds.
\<close>

datatype exn = NodeNullOnRemoval | NoPriceLevel | NoRoomInBooks

datatype fault = NullDereference | DivisionByZero | NodeOfOtherList | OutOfBounds

datatype ('v, 's) outcome = Done 'v 's | Throw exn 's | Fault fault

section \<open>OrderList (orderlist.h)\<close>

text \<open>
  One price level: the price and the orders from head to tail. Every order owns exactly
  one node, so a node is named by its order; an order is named by its address in the heap.
\<close>

record OrderList =
  level_price :: F
  nodes :: "nat list"

type_synonym heap = "nat \<Rightarrow> Order option"

definition pushback :: "nat \<Rightarrow> heap \<times> OrderList \<Rightarrow> (unit, heap \<times> OrderList) outcome" where
  "pushback a s =
     (case s of (h, l) \<Rightarrow>
        (case h a of
           None \<Rightarrow> Fault NullDereference
         | Some ord \<Rightarrow>
             if onList ord then Fault NodeOfOtherList
             else Done () (h(a \<mapsto> ord\<lparr> onList := True \<rparr>), l\<lparr> nodes := nodes l @ [a] \<rparr>)))"

definition remove :: "nat \<Rightarrow> heap \<times> OrderList \<Rightarrow> (unit, heap \<times> OrderList) outcome" where
  "remove a s =
     (case s of (h, l) \<Rightarrow>
        (case h a of
           None \<Rightarrow> Fault NullDereference
         | Some ord \<Rightarrow>
             if \<not> onList ord then Throw NodeNullOnRemoval (h, l)
             else if a \<notin> set (nodes l) then Fault NodeOfOtherList
             else Done () (h(a \<mapsto> ord\<lparr> onList := False \<rparr>), l\<lparr> nodes := remove1 a (nodes l) \<rparr>)))"

text \<open>\<open>front()\<close>: \<open>head->order.lock()\<close>, null when the list is empty or the handle is dead.\<close>

definition front :: "heap \<Rightarrow> OrderList \<Rightarrow> nat option" where
  "front h l =
     (case nodes l of
        [] \<Rightarrow> None
      | a # _ \<Rightarrow> (case h a of None \<Rightarrow> None | Some ord \<Rightarrow> if onList ord then Some a else None))"

section \<open>PriceLevels (pricelevels.h, StructPriceLevels over a vector)\<close>

definition cmpFn :: "bool \<Rightarrow> OrderList \<Rightarrow> F \<Rightarrow> bool" where
  "cmpFn ascending t u = (if ascending then level_price t < u else level_price t > u)"

text \<open>
  \<open>std::lower_bound(levels.begin(), levels.end(), p, cmpFn)\<close>, as an index: on a range
  partitioned by \<open>cmpFn\<close> (a sorted ladder is) it is the first position whose level does
  not compare before \<open>p\<close>.
\<close>

definition lower_bound :: "bool \<Rightarrow> OrderList list \<Rightarrow> F \<Rightarrow> nat" where
  "lower_bound ascending levels p = length (takeWhile (\<lambda>t. cmpFn ascending t p) levels)"

definition PriceLevels_insertOrder ::
    "bool \<Rightarrow> nat \<Rightarrow> heap \<times> OrderList list \<Rightarrow> (unit, heap \<times> OrderList list) outcome" where
  "PriceLevels_insertOrder ascending a s =
     (case s of (h, levels) \<Rightarrow>
        (case h a of
           None \<Rightarrow> Fault NullDereference
         | Some ord \<Rightarrow>
             let itr = lower_bound ascending levels (price ord) in
             if itr = length levels \<or> level_price (levels ! itr) \<noteq> price ord
             then (case pushback a (h, \<lparr> level_price = price ord, nodes = [] \<rparr>) of
                     Done _ (h', l') \<Rightarrow> Done () (h', take itr levels @ l' # drop itr levels)
                   | Throw e _ \<Rightarrow> Throw e (h, levels)
                   | Fault f \<Rightarrow> Fault f)
             else (case pushback a (h, levels ! itr) of
                     Done _ (h', l') \<Rightarrow> Done () (h', levels[itr := l'])
                   | Throw e _ \<Rightarrow> Throw e (h, levels)
                   | Fault f \<Rightarrow> Fault f)))"

definition PriceLevels_removeOrder ::
    "bool \<Rightarrow> nat \<Rightarrow> heap \<times> OrderList list \<Rightarrow> (unit, heap \<times> OrderList list) outcome" where
  "PriceLevels_removeOrder ascending a s =
     (case s of (h, levels) \<Rightarrow>
        (case h a of
           None \<Rightarrow> Fault NullDereference
         | Some ord \<Rightarrow>
             let itr = lower_bound ascending levels (price ord) in
             if itr = length levels \<or> level_price (levels ! itr) \<noteq> price ord
             then Throw NoPriceLevel (h, levels)
             else (case remove a (h, levels ! itr) of
                     Done _ (h', l') \<Rightarrow>
                       if front h' l' = None
                       then Done () (h', take itr levels @ drop (Suc itr) levels)
                       else Done () (h', levels[itr := l'])
                   | Throw e _ \<Rightarrow> Throw e (h, levels)
                   | Fault f \<Rightarrow> Fault f)))"

definition PriceLevels_front :: "heap \<Rightarrow> OrderList list \<Rightarrow> nat option" where
  "PriceLevels_front h levels = (case levels of [] \<Rightarrow> None | l # _ \<Rightarrow> front h l)"

section \<open>OrderBook (orderbook.h, orderbook.cpp)\<close>

record Trade =
  trade_price :: F
  trade_quantity :: int
  aggressor :: nat
  opposite :: nat

text \<open>What the listener receives: \<open>onOrder\<close> with the order as it is then, \<open>onTrade\<close>.\<close>

datatype Event = OnOrder Order | OnTrade Trade

record QuoteOrders =
  quote_bid :: "nat option"
  quote_ask :: "nat option"

text \<open>
  The state an \<open>OrderBook\<close> method runs on: the members \<open>bids\<close>, \<open>asks\<close> and
  \<open>quotes\<close>, the \<open>Order\<close> objects its pointers reach (\<open>heap\<close>), and the calls its
  listener has received, oldest first (\<open>events\<close>).
\<close>

record Shared =
  heap :: heap
  events :: "Event list"

record BookState = Shared +
  bids :: "OrderList list"
  asks :: "OrderList list"
  quotes :: "string \<times> string \<Rightarrow> QuoteOrders option"

definition ladder :: "Side \<Rightarrow> BookState \<Rightarrow> OrderList list" where
  "ladder sd st = (if sd = BUY then bids st else asks st)"

definition set_ladder :: "Side \<Rightarrow> heap \<times> OrderList list \<Rightarrow> BookState \<Rightarrow> BookState" where
  "set_ladder sd s st =
     (if sd = BUY then st\<lparr> heap := fst s, bids := snd s \<rparr> else st\<lparr> heap := fst s, asks := snd s \<rparr>)"

text \<open>\<open>bids\<close> is \<open>PriceLevels(false)\<close> (descending), \<open>asks\<close> is \<open>PriceLevels(true)\<close>.\<close>

definition ascending_of :: "Side \<Rightarrow> bool" where
  "ascending_of sd = (sd = SELL)"

definition side_insertOrder :: "Side \<Rightarrow> nat \<Rightarrow> BookState \<Rightarrow> (unit, BookState) outcome" where
  "side_insertOrder sd a st =
     (case PriceLevels_insertOrder (ascending_of sd) a (heap st, ladder sd st) of
        Done _ s \<Rightarrow> Done () (set_ladder sd s st)
      | Throw e _ \<Rightarrow> Throw e st
      | Fault f \<Rightarrow> Fault f)"

definition side_removeOrder :: "Side \<Rightarrow> nat \<Rightarrow> BookState \<Rightarrow> (unit, BookState) outcome" where
  "side_removeOrder sd a st =
     (case PriceLevels_removeOrder (ascending_of sd) a (heap st, ladder sd st) of
        Done _ s \<Rightarrow> Done () (set_ladder sd s st)
      | Throw e _ \<Rightarrow> Throw e st
      | Fault f \<Rightarrow> Fault f)"

definition emit :: "Event list \<Rightarrow> BookState \<Rightarrow> BookState" where
  "emit es st = st\<lparr> events := events st @ es \<rparr>"

definition fill_at :: "nat \<Rightarrow> int \<Rightarrow> F \<Rightarrow> BookState \<Rightarrow> (unit, BookState) outcome" where
  "fill_at a qty p st =
     (case heap st a of
        None \<Rightarrow> Fault NullDereference
      | Some ord \<Rightarrow>
          (case fill qty p ord of
             None \<Rightarrow> Fault DivisionByZero
           | Some ord' \<Rightarrow> Done () (st\<lparr> heap := (heap st)(a \<mapsto> ord') \<rparr>)))"

text \<open>\<open>if (o->remaining == 0) side.removeOrder(o)\<close>.\<close>

definition remove_if_done :: "Side \<Rightarrow> nat \<Rightarrow> BookState \<Rightarrow> (unit, BookState) outcome" where
  "remove_if_done sd a st =
     (case heap st a of
        None \<Rightarrow> Fault NullDereference
      | Some ord \<Rightarrow> if remaining ord = 0 then side_removeOrder sd a st else Done () st)"

definition order_event :: "nat \<Rightarrow> BookState \<Rightarrow> Event list" where
  "order_event a st = (case heap st a of None \<Rightarrow> [] | Some ord \<Rightarrow> [OnOrder ord])"

text \<open>
  One pass through the \<open>while\<close> loop of \<open>OrderBook::matchOrders\<close>. The value says
  whether the loop goes on: \<open>False\<close> when the loop condition fails or \<open>break\<close> is taken.
\<close>

definition matchIteration :: "Side \<Rightarrow> BookState \<Rightarrow> (bool, BookState) outcome" where
  "matchIteration aggressorSide st =
     (if bids st = [] \<or> asks st = [] then Done False st
      else
        (case PriceLevels_front (heap st) (bids st) of
           None \<Rightarrow> Fault NullDereference
         | Some b \<Rightarrow>
        (case PriceLevels_front (heap st) (asks st) of
           None \<Rightarrow> Fault NullDereference
         | Some a \<Rightarrow>
        (case heap st b of
           None \<Rightarrow> Fault NullDereference
         | Some bo \<Rightarrow>
        (case heap st a of
           None \<Rightarrow> Fault NullDereference
         | Some ao \<Rightarrow>
             if price bo \<ge> price ao then
               let qty = min (remaining bo) (remaining ao);
                   p = min (price bo) (price ao);
                   trade = \<lparr> trade_price = p, trade_quantity = qty,
                             aggressor = (if aggressorSide = BUY then b else a),
                             opposite = (if aggressorSide = BUY then a else b) \<rparr>
               in
               (case fill_at b qty p st of
                  Done _ st1 \<Rightarrow>
               (case fill_at a qty p st1 of
                  Done _ st2 \<Rightarrow>
               (case remove_if_done BUY b st2 of
                  Done _ st3 \<Rightarrow>
               (case remove_if_done SELL a st3 of
                  Done _ st4 \<Rightarrow>
                    Done True (emit (order_event b st4 @ order_event a st4 @ [OnTrade trade]) st4)
                | Throw e s \<Rightarrow> Throw e s
                | Fault f \<Rightarrow> Fault f)
                | Throw e s \<Rightarrow> Throw e s
                | Fault f \<Rightarrow> Fault f)
                | Throw e s \<Rightarrow> Throw e s
                | Fault f \<Rightarrow> Fault f)
                | Throw e s \<Rightarrow> Throw e s
                | Fault f \<Rightarrow> Fault f)
             else Done False st)))))"

text \<open>The loop itself; \<open>None\<close> stands for a loop that never ends.\<close>

partial_function (option) matchLoop :: "Side \<Rightarrow> BookState \<Rightarrow> (unit, BookState) outcome option" where
  "matchLoop aggressorSide st =
     (case matchIteration aggressorSide st of
        Done again st' \<Rightarrow> if again then matchLoop aggressorSide st' else Some (Done () st')
      | Throw e s \<Rightarrow> Some (Throw e s)
      | Fault f \<Rightarrow> Some (Fault f))"

declare matchLoop.simps [code]

text \<open>The code after the loop: a market order left at the front of the aggressor's side is cancelled.\<close>

definition cancelResidual :: "Side \<Rightarrow> BookState \<Rightarrow> (unit, BookState) outcome" where
  "cancelResidual aggressorSide st =
     (if ladder aggressorSide st = [] then Done () st
      else
        (case PriceLevels_front (heap st) (ladder aggressorSide st) of
           None \<Rightarrow> Done () st
         | Some a \<Rightarrow>
             (case heap st a of
                None \<Rightarrow> Done () st
              | Some ord \<Rightarrow>
                  if isMarket ord then
                    (let st1 = st\<lparr> heap := (heap st)(a \<mapsto> cancel ord) \<rparr> in
                     case side_removeOrder aggressorSide a st1 of
                       Done _ st2 \<Rightarrow> Done () (emit (order_event a st2) st2)
                     | Throw e s \<Rightarrow> Throw e s
                     | Fault f \<Rightarrow> Fault f)
                  else Done () st)))"

definition matchOrders :: "Side \<Rightarrow> BookState \<Rightarrow> (unit, BookState) outcome option" where
  "matchOrders aggressorSide st =
     (case matchLoop aggressorSide st of
        None \<Rightarrow> None
      | Some (Done _ st') \<Rightarrow> Some (cancelResidual aggressorSide st')
      | Some (Throw e s) \<Rightarrow> Some (Throw e s)
      | Some (Fault f) \<Rightarrow> Some (Fault f))"

text \<open>\<open>OrderBook::insertOrder\<close>; the argument is a \<open>shared_ptr\<close>, \<open>None\<close> when null.\<close>

definition OrderBook_insertOrder :: "nat option \<Rightarrow> BookState \<Rightarrow> (unit, BookState) outcome option" where
  "OrderBook_insertOrder order st =
     (case order of
        None \<Rightarrow> Some (Done () st)
      | Some a \<Rightarrow>
          (case heap st a of
             None \<Rightarrow> Some (Fault NullDereference)
           | Some ord \<Rightarrow>
               if remaining ord \<le> 0 then Some (Done () st)
               else
                 (case side_insertOrder (side ord) a st of
                    Done _ st1 \<Rightarrow> matchOrders (side ord) (emit (order_event a st1) st1)
                  | Throw e s \<Rightarrow> Some (Throw e s)
                  | Fault f \<Rightarrow> Some (Fault f))))"

text \<open>
  \<open>OrderBook::quote\<close>. \<open>bid->isOnList()\<close> and \<open>ask->isOnList()\<close> are evaluated without
  a null check, before anything else.
\<close>

definition remove_if_onList :: "Side \<Rightarrow> nat option \<Rightarrow> BookState \<Rightarrow> (unit, BookState) outcome" where
  "remove_if_onList sd order st =
     (case order of
        None \<Rightarrow> Fault NullDereference
      | Some a \<Rightarrow>
          (case heap st a of
             None \<Rightarrow> Fault NullDereference
           | Some ord \<Rightarrow> if onList ord then side_removeOrder sd a st else Done () st))"

text \<open>The four assignments of one branch of \<open>quote\<close>, then \<open>insertOrder\<close> on that side.\<close>

definition rearm :: "F \<Rightarrow> int \<Rightarrow> Order \<Rightarrow> Order" where
  "rearm p q ord = ord\<lparr> price := p, quantity := q, remaining := q, filled := 0 \<rparr>"

definition quote_side :: "Side \<Rightarrow> nat option \<Rightarrow> F \<Rightarrow> int \<Rightarrow> BookState \<Rightarrow> (unit, BookState) outcome option" where
  "quote_side sd order p q st =
     (if q \<noteq> 0 then
        (case order of
           None \<Rightarrow> Some (Fault NullDereference)
         | Some a \<Rightarrow>
             (case heap st a of
                None \<Rightarrow> Some (Fault NullDereference)
              | Some ord \<Rightarrow>
                  (case side_insertOrder sd a (st\<lparr> heap := (heap st)(a \<mapsto> rearm p q ord) \<rparr>) of
                     Done _ st1 \<Rightarrow> matchOrders sd st1
                   | Throw e s \<Rightarrow> Some (Throw e s)
                   | Fault f \<Rightarrow> Some (Fault f))))
      else Some (Done () st))"

definition OrderBook_quote ::
    "QuoteOrders \<Rightarrow> F \<Rightarrow> int \<Rightarrow> F \<Rightarrow> int \<Rightarrow> BookState \<Rightarrow> (unit, BookState) outcome option" where
  "OrderBook_quote qs bidPrice bidQuantity askPrice askQuantity st =
     (case remove_if_onList BUY (quote_bid qs) st of
        Done _ st1 \<Rightarrow>
          (case remove_if_onList SELL (quote_ask qs) st1 of
             Done _ st2 \<Rightarrow>
               (case quote_side BUY (quote_bid qs) bidPrice bidQuantity st2 of
                  Some (Done _ st3) \<Rightarrow> quote_side SELL (quote_ask qs) askPrice askQuantity st3
                | other \<Rightarrow> other)
           | Throw e s \<Rightarrow> Some (Throw e s)
           | Fault f \<Rightarrow> Some (Fault f))
      | Throw e s \<Rightarrow> Some (Throw e s)
      | Fault f \<Rightarrow> Some (Fault f))"

text \<open>\<open>OrderBook::cancelOrder\<close>: 0 on success, -1 otherwise.\<close>

definition OrderBook_cancelOrder :: "nat option \<Rightarrow> BookState \<Rightarrow> (int, BookState) outcome" where
  "OrderBook_cancelOrder order st =
     (case order of
        None \<Rightarrow> Done (- 1) st
      | Some a \<Rightarrow>
          (case heap st a of
             None \<Rightarrow> Fault NullDereference
           | Some ord \<Rightarrow>
               if remaining ord > 0 then
                 (let st1 = st\<lparr> heap := (heap st)(a \<mapsto> cancel ord) \<rparr> in
                  if onList ord then
                    (case side_removeOrder (side ord) a st1 of
                       Done _ st2 \<Rightarrow> Done 0 (emit (order_event a st2) st2)
                     | Throw e s \<Rightarrow> Throw e s
                     | Fault f \<Rightarrow> Fault f)
                  else Done (- 1) st1)
               else Done (- 1) st))"

text \<open>\<open>OrderBook::book\<close>: per level the price and the sum of the remaining quantities, and the ids.\<close>

record Book =
  book_bids :: "(F \<times> int) list"
  bidOrderIds :: "nat list"
  book_asks :: "(F \<times> int) list"
  askOrderIds :: "nat list"

definition remainingQuantity :: "heap \<Rightarrow> nat \<Rightarrow> int" where
  "remainingQuantity h a = (case h a of None \<Rightarrow> 0 | Some ord \<Rightarrow> remaining ord)"

definition snap_levels :: "heap \<Rightarrow> OrderList list \<Rightarrow> (F \<times> int) list" where
  "snap_levels h levels = map (\<lambda>l. (level_price l, sum_list (map (remainingQuantity h) (nodes l)))) levels"

definition snap_ids :: "heap \<Rightarrow> OrderList list \<Rightarrow> nat list" where
  "snap_ids h levels =
     concat (map (\<lambda>l. map (\<lambda>a. case h a of None \<Rightarrow> 0 | Some ord \<Rightarrow> exchangeId ord) (nodes l)) levels)"

definition OrderBook_book :: "BookState \<Rightarrow> Book" where
  "OrderBook_book st =
     \<lparr> book_bids = snap_levels (heap st) (bids st), bidOrderIds = snap_ids (heap st) (bids st),
       book_asks = snap_levels (heap st) (asks st), askOrderIds = snap_ids (heap st) (asks st) \<rparr>"

section \<open>Exchange (exchange.h, exchange.cpp, bookmap.h, ordermap.h)\<close>

text \<open>
  The members of one \<open>OrderBook\<close> as the \<open>BookMap\<close> holds them, and the exchange: the
  \<open>BookMap\<close> as the list of its entries (an open-addressed table of \<open>MAX_INSTRUMENTS\<close>
  slots, never emptied), the \<open>OrderMap\<close> as the list of the orders added, newest first
  (every bucket chain is newest first, and one id falls in one bucket), and the counter of
  \<open>nextID\<close>. \<open>Order::create\<close> puts the order with id \<open>n\<close> at address \<open>n\<close>: ids are
  never repeated, so two orders never share an address.
\<close>

record OrderBook =
  the_bids :: "OrderList list"
  the_asks :: "OrderList list"
  the_quotes :: "string \<times> string \<Rightarrow> QuoteOrders option"

record Exchange = Shared +
  books :: "(string \<times> OrderBook) list"
  allOrders :: "nat list"
  idCounter :: nat

definition MAX_INSTRUMENTS :: nat where
  "MAX_INSTRUMENTS = 1024"

definition new_book :: OrderBook where
  "new_book = \<lparr> the_bids = [], the_asks = [], the_quotes = (\<lambda>k. None) \<rparr>"

definition new_exchange :: Exchange where
  "new_exchange = \<lparr> heap = (\<lambda>a. None), events = [], books = [], allOrders = [], idCounter = 0 \<rparr>"

text \<open>\<open>BookMap::getOrCreate\<close> throws when every slot holds another instrument.\<close>

definition getOrCreate :: "string \<Rightarrow> Exchange \<Rightarrow> (unit, Exchange) outcome" where
  "getOrCreate instr ex =
     (case map_of (books ex) instr of
        Some b \<Rightarrow> Done () ex
      | None \<Rightarrow>
          if length (books ex) \<ge> MAX_INSTRUMENTS then Throw NoRoomInBooks ex
          else Done () (ex\<lparr> books := books ex @ [(instr, new_book)] \<rparr>))"

definition open_book :: "Exchange \<Rightarrow> OrderBook \<Rightarrow> BookState" where
  "open_book ex b =
     \<lparr> heap = heap ex, events = events ex, bids = the_bids b, asks = the_asks b, quotes = the_quotes b \<rparr>"

definition close_book :: "string \<Rightarrow> BookState \<Rightarrow> Exchange \<Rightarrow> Exchange" where
  "close_book instr st ex =
     ex\<lparr> heap := heap st, events := events st,
         books := AList.update instr
                    \<lparr> the_bids = bids st, the_asks = asks st, the_quotes = quotes st \<rparr> (books ex) \<rparr>"

text \<open>
  \<open>OrderMap::get(long exchangeId)\<close> begins with \<open>int bucket = exchangeId % TABLE_SIZE\<close>
  and loads \<open>table[bucket]\<close>. The \<open>%\<close> of C++ truncates towards zero, so the index is
  negative for a negative id that is no multiple of the table size, and the load is then
  outside the array; the callers below make that test first (\<open>OutOfBounds\<close>).
\<close>

definition TABLE_SIZE :: int where
  "TABLE_SIZE = 1000000"

definition OrderMap_bucket :: "int \<Rightarrow> int" where
  "OrderMap_bucket eid =
     (if 0 \<le> eid then eid mod TABLE_SIZE else - ((- eid) mod TABLE_SIZE))"

text \<open>The walk of \<open>OrderMap::get\<close> along the chain: the first order with that id.\<close>

definition OrderMap_get :: "Exchange \<Rightarrow> int \<Rightarrow> nat option" where
  "OrderMap_get ex eid =
     find (\<lambda>a. case heap ex a of None \<Rightarrow> False | Some ord \<Rightarrow> int (exchangeId ord) = eid)
          (allOrders ex)"

text \<open>\<open>Order::create\<close> with the next id, followed by \<open>allOrders.add\<close>; the value is the address.\<close>

definition create_order :: "string \<Rightarrow> string \<Rightarrow> string \<Rightarrow> F \<Rightarrow> int \<Rightarrow> Side \<Rightarrow> Exchange \<Rightarrow> nat \<times> Exchange" where
  "create_order sid oid instr p q sd ex =
     (let n = Suc (idCounter ex) in
      (n, ex\<lparr> idCounter := n,
              heap := (heap ex)(n \<mapsto> Order_create sid oid instr p q sd n),
              allOrders := n # allOrders ex \<rparr>))"

text \<open>
  \<open>Exchange::insertOrder\<close>. The \<open>catch (const std::exception&)\<close> clause turns every
  \<open>std::runtime_error\<close> thrown below it into \<open>std::nullopt\<close>.
\<close>

definition Exchange_insertOrder ::
    "string \<Rightarrow> string \<Rightarrow> F \<Rightarrow> int \<Rightarrow> Side \<Rightarrow> string \<Rightarrow> Exchange \<Rightarrow> (nat option, Exchange) outcome option" where
  "Exchange_insertOrder sid instr p q sd oid ex =
     (case getOrCreate instr ex of
        Throw e ex1 \<Rightarrow> Some (Done None ex1)
      | Fault f \<Rightarrow> Some (Fault f)
      | Done _ ex1 \<Rightarrow>
          (case map_of (books ex1) instr of
             None \<Rightarrow> Some (Done None ex1)
           | Some b \<Rightarrow>
               (case create_order sid oid instr p q sd ex1 of
                  (n, ex2) \<Rightarrow>
                    (case OrderBook_insertOrder (Some n) (open_book ex2 b) of
                       None \<Rightarrow> None
                     | Some (Done _ st) \<Rightarrow> Some (Done (Some n) (close_book instr st ex2))
                     | Some (Throw e st) \<Rightarrow> Some (Done None (close_book instr st ex2))
                     | Some (Fault f) \<Rightarrow> Some (Fault f)))))"

definition Exchange_buy :: "string \<Rightarrow> string \<Rightarrow> F \<Rightarrow> int \<Rightarrow> string \<Rightarrow> Exchange \<Rightarrow> (nat option, Exchange) outcome option" where
  "Exchange_buy sid instr p q oid ex = Exchange_insertOrder sid instr p q BUY oid ex"

definition Exchange_sell :: "string \<Rightarrow> string \<Rightarrow> F \<Rightarrow> int \<Rightarrow> string \<Rightarrow> Exchange \<Rightarrow> (nat option, Exchange) outcome option" where
  "Exchange_sell sid instr p q oid ex = Exchange_insertOrder sid instr p q SELL oid ex"

definition Exchange_marketBuy :: "string \<Rightarrow> string \<Rightarrow> int \<Rightarrow> string \<Rightarrow> Exchange \<Rightarrow> (nat option, Exchange) outcome option" where
  "Exchange_marketBuy sid instr q oid ex = Exchange_buy sid instr PlusMax q oid ex"

definition Exchange_marketSell :: "string \<Rightarrow> string \<Rightarrow> int \<Rightarrow> string \<Rightarrow> Exchange \<Rightarrow> (nat option, Exchange) outcome option" where
  "Exchange_marketSell sid instr q oid ex = Exchange_sell sid instr MinusMax q oid ex"

text \<open>\<open>Exchange::cancel(long exchangeId, sessionId)\<close>; the id is any integer.\<close>

definition Exchange_cancel :: "int \<Rightarrow> string \<Rightarrow> Exchange \<Rightarrow> (bool, Exchange) outcome" where
  "Exchange_cancel eid sid ex =
     (if OrderMap_bucket eid < 0 then Fault OutOfBounds
      else
        (case OrderMap_get ex eid of
           None \<Rightarrow> Done False ex
         | Some a \<Rightarrow>
             (case heap ex a of
                None \<Rightarrow> Fault NullDereference
              | Some ord \<Rightarrow>
                  if sessionId ord \<noteq> sid then Done False ex
                  else
                    (case map_of (books ex) (instrument ord) of
                       None \<Rightarrow> Done False ex
                     | Some b \<Rightarrow>
                         (case OrderBook_cancelOrder (Some a) (open_book ex b) of
                            Done result st \<Rightarrow> Done (result = 0) (close_book (instrument ord) st ex)
                          | Throw e st \<Rightarrow> Throw e (close_book (instrument ord) st ex)
                          | Fault f \<Rightarrow> Fault f)))))"

text \<open>
  \<open>Exchange::getOrder\<close> for an id that is not negative, whose index lies in the table: a
  copy of the order, or \<open>std::nullopt\<close>.
\<close>

definition Exchange_getOrder :: "Exchange \<Rightarrow> nat \<Rightarrow> Order option" where
  "Exchange_getOrder ex eid =
     (case OrderMap_get ex (int eid) of
        None \<Rightarrow> None
      | Some a \<Rightarrow>
          (case heap ex a of
             None \<Rightarrow> None
           | Some ord \<Rightarrow>
               (case map_of (books ex) (instrument ord) of None \<Rightarrow> None | Some b \<Rightarrow> Some ord)))"


definition Exchange_book :: "Exchange \<Rightarrow> string \<Rightarrow> Book option" where
  "Exchange_book ex instr =
     (case map_of (books ex) instr of None \<Rightarrow> None | Some b \<Rightarrow> Some (OrderBook_book (open_book ex b)))"

text \<open>
  The factory \<open>Exchange::quote\<close> hands to \<open>getQuotes\<close>: a side is created only when its
  quantity is positive.
\<close>

definition create_quote_side ::
    "string \<Rightarrow> string \<Rightarrow> string \<Rightarrow> F \<Rightarrow> int \<Rightarrow> Side \<Rightarrow> Exchange \<Rightarrow> nat option \<times> Exchange" where
  "create_quote_side sid qid instr p q sd ex =
     (if q > 0 then (case create_order sid qid instr p q sd ex of (n, ex') \<Rightarrow> (Some n, ex'))
      else (None, ex))"

definition createOrders ::
    "string \<Rightarrow> string \<Rightarrow> string \<Rightarrow> F \<Rightarrow> int \<Rightarrow> F \<Rightarrow> int \<Rightarrow> Exchange \<Rightarrow> QuoteOrders \<times> Exchange" where
  "createOrders sid qid instr bidPrice bidQuantity askPrice askQuantity ex =
     (case create_quote_side sid qid instr bidPrice bidQuantity BUY ex of
        (b, ex1) \<Rightarrow>
          (case create_quote_side sid qid instr askPrice askQuantity SELL ex1 of
             (a, ex2) \<Rightarrow> (\<lparr> quote_bid = b, quote_ask = a \<rparr>, ex2)))"

text \<open>
  \<open>Exchange::quote\<close> with \<open>OrderBook::getQuotes\<close> inlined: the quote pair of
  \<open>(sessionId, quoteId)\<close> is looked up and, when absent, made by the factory and stored.
  Nothing here is caught.
\<close>

definition Exchange_quote ::
    "string \<Rightarrow> string \<Rightarrow> F \<Rightarrow> int \<Rightarrow> F \<Rightarrow> int \<Rightarrow> string \<Rightarrow> Exchange \<Rightarrow> (unit, Exchange) outcome option" where
  "Exchange_quote sid instr bidPrice bidQuantity askPrice askQuantity qid ex =
     (case getOrCreate instr ex of
        Throw e ex1 \<Rightarrow> Some (Throw e ex1)
      | Fault f \<Rightarrow> Some (Fault f)
      | Done _ ex1 \<Rightarrow>
          (case map_of (books ex1) instr of
             None \<Rightarrow> Some (Fault NullDereference)
           | Some b \<Rightarrow>
               (case (case the_quotes b (sid, qid) of
                        Some qs \<Rightarrow> (qs, ex1, b)
                      | None \<Rightarrow>
                          (case createOrders sid qid instr bidPrice bidQuantity askPrice askQuantity ex1 of
                             (qs, ex2) \<Rightarrow> (qs, ex2, b\<lparr> the_quotes := (the_quotes b)((sid, qid) \<mapsto> qs) \<rparr>))) of
                  (qs, ex2, b') \<Rightarrow>
                    (case OrderBook_quote qs bidPrice bidQuantity askPrice askQuantity (open_book ex2 b') of
                       None \<Rightarrow> None
                     | Some (Done _ st) \<Rightarrow> Some (Done () (close_book instr st ex2))
                     | Some (Throw e st) \<Rightarrow> Some (Throw e (close_book instr st ex2))
                     | Some (Fault f) \<Rightarrow> Some (Fault f)))))"

section \<open>Sequences of public calls\<close>

text \<open>
  The calls of the public API. \<open>step\<close> is the state after a call that returned to its
  caller (with a value or with an empty result), and nothing when it threw, faulted or
  did not end; \<open>reachable\<close> are the states the API leads to from a new exchange.
\<close>

datatype Op =
    Buy string string F int string
  | Sell string string F int string
  | MarketBuy string string int string
  | MarketSell string string int string
  | Quote string string F int F int string
  | Cancel int string

definition returned :: "('v, 's) outcome option \<Rightarrow> 's option" where
  "returned r = (case r of Some (Done v s) \<Rightarrow> Some s | _ \<Rightarrow> None)"

fun step :: "Op \<Rightarrow> Exchange \<Rightarrow> Exchange option" where
  "step (Buy sid instr p q oid) ex = returned (Exchange_buy sid instr p q oid ex)"
| "step (Sell sid instr p q oid) ex = returned (Exchange_sell sid instr p q oid ex)"
| "step (MarketBuy sid instr q oid) ex = returned (Exchange_marketBuy sid instr q oid ex)"
| "step (MarketSell sid instr q oid) ex = returned (Exchange_marketSell sid instr q oid ex)"
| "step (Quote sid instr bp bq ap aq qid) ex = returned (Exchange_quote sid instr bp bq ap aq qid ex)"
| "step (Cancel eid sid) ex = returned (Some (Exchange_cancel eid sid ex))"

fun run :: "Op list \<Rightarrow> Exchange \<Rightarrow> Exchange option" where
  "run [] ex = Some ex"
| "run (c # cs) ex = (case step c ex of None \<Rightarrow> None | Some ex' \<Rightarrow> run cs ex')"

inductive reachable :: "Exchange \<Rightarrow> bool" where
  reachable_new: "reachable new_exchange"
| reachable_step: "reachable ex \<Longrightarrow> step c ex = Some ex' \<Longrightarrow> reachable ex'"

text \<open>What a test reads off a state: the trades the listener saw and the orders at rest.\<close>

definition trades_of :: "Event list \<Rightarrow> Trade list" where
  "trades_of es = concat (map (\<lambda>e. case e of OnTrade t \<Rightarrow> [t] | OnOrder ord \<Rightarrow> []) es)"

definition all_nodes :: "OrderList list \<Rightarrow> nat list" where
  "all_nodes levels = concat (map nodes levels)"

definition resting :: "Exchange \<Rightarrow> string \<Rightarrow> Side \<Rightarrow> nat list" where
  "resting ex instr sd =
     (case map_of (books ex) instr of
        None \<Rightarrow> []
      | Some b \<Rightarrow> all_nodes (if sd = BUY then the_bids b else the_asks b))"

section \<open>Notions the properties are stated with\<close>

definition order_price :: "heap \<Rightarrow> nat \<Rightarrow> F option" where
  "order_price h a = map_option price (h a)"

text \<open>A trade at the price of its passive order.\<close>

definition at_passive_price :: "heap \<Rightarrow> Trade \<Rightarrow> bool" where
  "at_passive_price h t = (order_price h (opposite t) = Some (trade_price t))"

text \<open>
  What \<open>matchOrders\<close> does instead: the price is the smaller of the two order prices,
  which is the price of the order on the sell side.
\<close>

definition at_lower_price :: "Side \<Rightarrow> heap \<Rightarrow> Trade \<Rightarrow> bool" where
  "at_lower_price aggressorSide h t =
     (case (h (aggressor t), h (opposite t)) of
        (Some ag, Some op) \<Rightarrow>
           trade_price t = min (price ag) (price op)
           \<and> trade_price t = (if aggressorSide = BUY then price op else price ag)
      | _ \<Rightarrow> False)"

section \<open>Scenarios\<close>

text \<open>Scenario S1 of the spec: Buy(1.0, 10), then Sell(0.75, 10), on one instrument.\<close>

definition S1 :: "Op list" where
  "S1 = [Buy ''s'' ''SYM1'' (Fin 10000000) 10 ''1'', Sell ''s'' ''SYM1'' (Fin 7500000) 10 ''2'']"

text \<open>The book of S1 when \<open>insertOrder\<close> has placed the sell order and calls \<open>matchOrders\<close>.\<close>

definition crossed_book :: BookState where
  "crossed_book =
     \<lparr> heap = [1 \<mapsto> (Order_create ''s'' ''1'' ''SYM1'' (Fin 10000000) 10 BUY 1)\<lparr> onList := True \<rparr>,
               2 \<mapsto> (Order_create ''s'' ''2'' ''SYM1'' (Fin 7500000) 10 SELL 2)\<lparr> onList := True \<rparr>],
       events = [],
       bids = [\<lparr> level_price = Fin 10000000, nodes = [1] \<rparr>],
       asks = [\<lparr> level_price = Fin 7500000, nodes = [2] \<rparr>],
       quotes = (\<lambda>k. None) \<rparr>"

text \<open>How a call ended, for statements about one call.\<close>

definition fault_of :: "('v, 's) outcome option \<Rightarrow> fault option" where
  "fault_of r = (case r of Some (Fault f) \<Rightarrow> Some f | _ \<Rightarrow> None)"

definition thrown_by :: "('v, 's) outcome option \<Rightarrow> exn option" where
  "thrown_by r = (case r of Some (Throw e s) \<Rightarrow> Some e | _ \<Rightarrow> None)"

definition value_of :: "('v, 's) outcome option \<Rightarrow> 'v option" where
  "value_of r = (case r of Some (Done v s) \<Rightarrow> Some v | _ \<Rightarrow> None)"

text \<open>
  A quote of 10 at 100 against 20 at 101, then the same quote with the bid quantity -5.
\<close>

definition negative_requote :: "Op list" where
  "negative_requote =
     [Quote ''s'' ''SYM1'' (Fin 100) 10 (Fin 101) 20 ''q'',
      Quote ''s'' ''SYM1'' (Fin 100) (- 5) (Fin 101) 20 ''q'']"

text \<open>The fields of an order that no method assigns.\<close>

definition identity :: "Order \<Rightarrow> string \<times> string \<times> string \<times> nat \<times> Side" where
  "identity ord = (sessionId ord, orderId ord, instrument ord, exchangeId ord, side ord)"

definition same_identity :: "heap \<Rightarrow> heap \<Rightarrow> bool" where
  "same_identity h h' = (\<forall>x. map_option identity (h' x) = map_option identity (h x))"



text \<open>
  An exchange whose bid ladder is broken: the order at address 1 rests in the level of
  price 100, but its own price is 90, so no level exists for it.
\<close>

definition broken_exchange :: Exchange where
  "broken_exchange =
     \<lparr> heap = [1 \<mapsto> (Order_create ''s'' ''1'' ''SYM1'' (Fin 90) 10 BUY 1)\<lparr> onList := True \<rparr>],
       events = [],
       books = [(''SYM1'', \<lparr> the_bids = [\<lparr> level_price = Fin 100, nodes = [1] \<rparr>],
                             the_asks = [], the_quotes = (\<lambda>k. None) \<rparr>)],
       allOrders = [1],
       idCounter = 1 \<rparr>"

text \<open>
  A quote, a sell of 4 that fills part of the quote's bid, and the quote again with a new
  bid price: no trade happens in the third call.
\<close>

definition requote_after_fill :: "Op list" where
  "requote_after_fill =
     [Quote ''s'' ''SYM1'' (Fin 100) 10 (Fin 101) 20 ''q'',
      Sell ''t'' ''SYM1'' (Fin 100) 4 ''1'',
      Quote ''s'' ''SYM1'' (Fin 99) 10 (Fin 101) 20 ''q'']"

text \<open>The book of \<open>requote_after_fill\<close> before its third call, and the quote pair.\<close>

definition quoted_book :: BookState where
  "quoted_book =
     \<lparr> heap = [1 \<mapsto> (Order_create ''s'' ''q'' ''SYM1'' (Fin 100) 10 BUY 1)
                       \<lparr> remaining := 6, filled := 4, cumQty := 4, avgPrice := Fin 100, onList := True \<rparr>,
               2 \<mapsto> (Order_create ''s'' ''q'' ''SYM1'' (Fin 101) 20 SELL 2)\<lparr> onList := True \<rparr>,
               3 \<mapsto> (Order_create ''t'' ''1'' ''SYM1'' (Fin 100) 4 SELL 3)
                       \<lparr> remaining := 0, filled := 4, cumQty := 4, avgPrice := Fin 100 \<rparr>],
       events = [],
       bids = [\<lparr> level_price = Fin 100, nodes = [1] \<rparr>],
       asks = [\<lparr> level_price = Fin 101, nodes = [2] \<rparr>],
       quotes = [(''s'', ''q'') \<mapsto> \<lparr> quote_bid = Some 1, quote_ask = Some 2 \<rparr>] \<rparr>"

section \<open>Invariants\<close>

text \<open>The orders on the two ladders of a book, and their number.\<close>

definition ladder_nodes :: "BookState \<Rightarrow> nat set" where
  "ladder_nodes st = set (all_nodes (bids st)) \<union> set (all_nodes (asks st))"

definition resting_count :: "BookState \<Rightarrow> nat" where
  "resting_count st = length (all_nodes (bids st)) + length (all_nodes (asks st))"

text \<open>
  An operation stays within the addresses \<open>X\<close>: no order changes its identity, the orders
  outside \<open>X\<close> are as before, nothing outside \<open>X\<close> comes onto a ladder, and the quote
  pairs are as before.
\<close>

definition frame :: "nat set \<Rightarrow> BookState \<Rightarrow> BookState \<Rightarrow> bool" where
  "frame X st st' =
     (same_identity (heap st) (heap st')
      \<and> (\<forall>x. x \<notin> X \<longrightarrow> heap st' x = heap st x)
      \<and> ladder_nodes st' \<subseteq> ladder_nodes st \<union> X
      \<and> quotes st' = quotes st)"

text \<open>
  The fill accounting of one order: \<open>remaining + filled\<close> is the quantity, or the order
  has been cancelled (\<open>Order::cancel\<close> sets \<open>remaining\<close> to 0 and leaves \<open>filled\<close>) and
  is off the ladders.
\<close>

definition accounted :: "Order \<Rightarrow> bool" where
  "accounted ord =
     (remaining ord + filled ord = quantity ord \<or> (remaining ord = 0 \<and> \<not> onList ord))"

definition heap_all :: "(Order \<Rightarrow> bool) \<Rightarrow> heap \<Rightarrow> bool" where
  "heap_all P h = (\<forall>a ord. h a = Some ord \<longrightarrow> P ord)"

text \<open>
  A ladder of the book of instrument \<open>n\<close>, side \<open>sd\<close>: no order is on it twice, and
  every order on it exists, has its handle live, is of that side and instrument, and
  sits in the level of its price.
\<close>

definition rests_ok :: "string \<Rightarrow> Side \<Rightarrow> heap \<Rightarrow> OrderList list \<Rightarrow> bool" where
  "rests_ok n sd h levels =
     (distinct (all_nodes levels)
      \<and> (\<forall>l\<in>set levels. \<forall>a\<in>set (nodes l).
            case h a of
              None \<Rightarrow> False
            | Some ord \<Rightarrow> onList ord \<and> side ord = sd \<and> instrument ord = n
                           \<and> price ord = level_price l))"

definition book_inv :: "string \<Rightarrow> BookState \<Rightarrow> bool" where
  "book_inv n st = (rests_ok n BUY (heap st) (bids st) \<and> rests_ok n SELL (heap st) (asks st))"

text \<open>
  The orders of a quote pair of the book of instrument \<open>n\<close>: a bid is a buy order of
  that instrument, an ask a sell order; a side may be null.
\<close>

definition pair_ok :: "string \<Rightarrow> heap \<Rightarrow> QuoteOrders \<Rightarrow> bool" where
  "pair_ok n h qs =
     ((case quote_bid qs of
         None \<Rightarrow> True
       | Some b \<Rightarrow> map_option (\<lambda>ord. (side ord, instrument ord)) (h b) = Some (BUY, n))
      \<and> (case quote_ask qs of
            None \<Rightarrow> True
          | Some a \<Rightarrow> map_option (\<lambda>ord. (side ord, instrument ord)) (h a) = Some (SELL, n)))"

definition quotes_ok :: "string \<Rightarrow> heap \<Rightarrow> (string \<times> string \<Rightarrow> QuoteOrders option) \<Rightarrow> bool" where
  "quotes_ok n h Q = (\<forall>k qs. Q k = Some qs \<longrightarrow> pair_ok n h qs)"

text \<open>
  The exchange between two calls: every book keeps the ladder invariant and holds quote
  pairs of its own instrument, every order is accounted for, and every order was made by
  \<open>create_order\<close>: its address is its exchange id, at most the id counter, it is in the
  order map and its instrument has a book.
\<close>

definition ex_inv :: "Exchange \<Rightarrow> bool" where
  "ex_inv ex =
     ((\<forall>n b. map_of (books ex) n = Some b \<longrightarrow>
          book_inv n (open_book ex b) \<and> quotes_ok n (heap ex) (the_quotes b))
      \<and> heap_all accounted (heap ex)
      \<and> (\<forall>a ord. heap ex a = Some ord \<longrightarrow>
            a \<le> idCounter ex \<and> exchangeId ord = a \<and> a \<in> set (allOrders ex)
            \<and> map_of (books ex) (instrument ord) \<noteq> None))"

section \<open>Notions for one side of a quote\<close>

text \<open>The order of a quote pair on a side, and the target quantity a call gives that side.\<close>

definition quote_order :: "Side \<Rightarrow> QuoteOrders \<Rightarrow> nat option" where
  "quote_order sd qs = (if sd = BUY then quote_bid qs else quote_ask qs)"

definition target_quantity :: "Side \<Rightarrow> int \<Rightarrow> int \<Rightarrow> int" where
  "target_quantity sd bidQuantity askQuantity = (if sd = BUY then bidQuantity else askQuantity)"

text \<open>A quote of 10 at 100 against 20 at 101.\<close>

definition quote_once :: "Op list" where
  "quote_once = [Quote ''s'' ''SYM1'' (Fin 100) 10 (Fin 101) 20 ''q'']"

section \<open>Scenarios of the fill accounting\<close>



section \<open>What the list operations do to the heap and to a ladder\<close>


lemma pushback_Done:
  assumes "pushback a (h, l) = Done u (h', l')"
  shows "\<exists>ord. h a = Some ord \<and> \<not> onList ord \<and> h' = h(a \<mapsto> ord\<lparr> onList := True \<rparr>)
           \<and> l' = l\<lparr> nodes := nodes l @ [a] \<rparr>"
  using assms by (auto simp: pushback_def split: option.splits if_splits)

lemma remove_Done:
  assumes "remove a (h, l) = Done u (h', l')"
  shows "\<exists>ord. h a = Some ord \<and> onList ord \<and> a \<in> set (nodes l)
           \<and> h' = h(a \<mapsto> ord\<lparr> onList := False \<rparr>) \<and> l' = l\<lparr> nodes := remove1 a (nodes l) \<rparr>"
  using assms by (auto simp: remove_def split: option.splits if_splits)

lemma PriceLevels_insertOrder_Done:
  assumes "PriceLevels_insertOrder asc a (h, L) = Done u (h', L')"
  shows "\<exists>ord pre post. h a = Some ord \<and> \<not> onList ord \<and> h' = h(a \<mapsto> ord\<lparr> onList := True \<rparr>)
           \<and> L = pre @ post
           \<and> (L' = pre @ \<lparr> level_price = price ord, nodes = [a] \<rparr> # post
              \<or> (\<exists>l post'. post = l # post' \<and> level_price l = price ord
                    \<and> L' = pre @ l\<lparr> nodes := nodes l @ [a] \<rparr> # post'))"
proof -
  from assms obtain ord where ord: "h a = Some ord"
    by (auto simp: PriceLevels_insertOrder_def split: option.splits)
  define itr where "itr = lower_bound asc L (price ord)"
  have le: "itr \<le> length L"
    unfolding itr_def lower_bound_def by (rule length_takeWhile_le)
  show ?thesis
  proof (cases "itr = length L \<or> level_price (L ! itr) \<noteq> price ord")
    case True
    with assms ord have "\<not> onList ord \<and> h' = h(a \<mapsto> ord\<lparr> onList := True \<rparr>)
        \<and> L' = take itr L @ \<lparr> level_price = price ord, nodes = [a] \<rparr> # drop itr L"
      by (auto simp: PriceLevels_insertOrder_def itr_def[symmetric] Let_def pushback_def
               split: option.splits if_splits outcome.splits)
    with ord show ?thesis
      by (metis append_take_drop_id)
  next
    case False
    then have lt: "itr < length L" and pr: "level_price (L ! itr) = price ord"
      using le by auto
    from False assms ord have "\<not> onList ord \<and> h' = h(a \<mapsto> ord\<lparr> onList := True \<rparr>)
        \<and> L' = L[itr := (L ! itr)\<lparr> nodes := nodes (L ! itr) @ [a] \<rparr>]"
      by (auto simp: PriceLevels_insertOrder_def itr_def[symmetric] Let_def pushback_def
               split: option.splits if_splits outcome.splits)
    moreover have "L = take itr L @ (L ! itr) # drop (Suc itr) L"
      using lt by (rule id_take_nth_drop)
    moreover have "L[itr := x] = take itr L @ x # drop (Suc itr) L" for x
      using lt by (rule upd_conv_take_nth_drop)
    ultimately show ?thesis
      using ord pr by (metis append_take_drop_id Cons_nth_drop_Suc lt)
  qed
qed

lemma PriceLevels_removeOrder_Done:
  assumes "PriceLevels_removeOrder asc a (h, L) = Done u (h', L')"
  shows "\<exists>ord pre l post. h a = Some ord \<and> onList ord \<and> h' = h(a \<mapsto> ord\<lparr> onList := False \<rparr>)
           \<and> L = pre @ l # post \<and> level_price l = price ord \<and> a \<in> set (nodes l)
           \<and> (L' = pre @ post \<or> L' = pre @ l\<lparr> nodes := remove1 a (nodes l) \<rparr> # post)"
proof -
  from assms obtain ord where ord: "h a = Some ord"
    by (auto simp: PriceLevels_removeOrder_def split: option.splits)
  define itr where "itr = lower_bound asc L (price ord)"
  have le: "itr \<le> length L"
    unfolding itr_def lower_bound_def by (rule length_takeWhile_le)
  from assms ord have found: "\<not> (itr = length L \<or> level_price (L ! itr) \<noteq> price ord)"
    by (auto simp: PriceLevels_removeOrder_def itr_def[symmetric] Let_def split: if_splits)
  then have lt: "itr < length L" and pr: "level_price (L ! itr) = price ord"
    using le by auto
  from found assms ord have eff: "onList ord \<and> a \<in> set (nodes (L ! itr)) \<and> h' = h(a \<mapsto> ord\<lparr> onList := False \<rparr>)
      \<and> (L' = take itr L @ drop (Suc itr) L \<or> L' = L[itr := (L ! itr)\<lparr> nodes := remove1 a (nodes (L ! itr)) \<rparr>])"
    by (auto simp: PriceLevels_removeOrder_def itr_def[symmetric] Let_def remove_def
             split: option.splits if_splits outcome.splits)
  have "L = take itr L @ (L ! itr) # drop (Suc itr) L"
    using lt by (rule id_take_nth_drop)
  moreover have "L[itr := x] = take itr L @ x # drop (Suc itr) L" for x
    using lt by (rule upd_conv_take_nth_drop)
  ultimately show ?thesis
    using ord pr eff by metis
qed


section \<open>The matching loop, one pass at a time\<close>

lemma matchIteration_False:
  assumes "matchIteration sd st = Done False st'"
  shows "st' = st"
  using assms
  by (auto simp: matchIteration_def Let_def split: if_splits option.splits outcome.splits)

lemma matchIteration_True:
  assumes "matchIteration sd st = Done True st'"
  obtains b a bo ao st1 st2 st3 st4 where
    "PriceLevels_front (heap st) (bids st) = Some b"
    "PriceLevels_front (heap st) (asks st) = Some a"
    "heap st b = Some bo" "heap st a = Some ao" "price ao \<le> price bo"
    "fill_at b (min (remaining bo) (remaining ao)) (min (price bo) (price ao)) st = Done () st1"
    "fill_at a (min (remaining bo) (remaining ao)) (min (price bo) (price ao)) st1 = Done () st2"
    "remove_if_done BUY b st2 = Done () st3"
    "remove_if_done SELL a st3 = Done () st4"
    "st' = emit (order_event b st4 @ order_event a st4 @
             [OnTrade \<lparr> trade_price = min (price bo) (price ao),
                        trade_quantity = min (remaining bo) (remaining ao),
                        aggressor = (if sd = BUY then b else a),
                        opposite = (if sd = BUY then a else b) \<rparr>]) st4"
  using assms
  by (auto simp: matchIteration_def Let_def split: if_splits option.splits outcome.splits)

text \<open>
  A property kept by every pass holds when the loop is left; whatever the loop returns was
  returned by a pass that started in a state with the property.
\<close>

lemma matchLoop_outcome:
  assumes "matchLoop sd st = Some r" and "I st"
    and "\<And>s s'. I s \<Longrightarrow> matchIteration sd s = Done True s' \<Longrightarrow> I s'"
  shows "\<exists>s. I s \<and> (case r of Done u s' \<Rightarrow> s' = s \<and> matchIteration sd s = Done False s
                      | Throw e s' \<Rightarrow> matchIteration sd s = Throw e s'
                      | Fault f \<Rightarrow> matchIteration sd s = Fault f)"
proof -
  let ?Q = "\<lambda>r. \<exists>s. I s \<and> (case r of Done u s' \<Rightarrow> s' = s \<and> matchIteration sd s = Done False s
                      | Throw e s' \<Rightarrow> matchIteration sd s = Throw e s'
                      | Fault f \<Rightarrow> matchIteration sd s = Fault f)"
  have "sd = sd \<longrightarrow> I st \<longrightarrow> ?Q r"
  proof (rule matchLoop.raw_induct [where P = "\<lambda>sd' st r. sd' = sd \<longrightarrow> I st \<longrightarrow> ?Q r", OF _ assms(1)])
    fix loop sd' st r
    assume IH: "\<And>x y z. loop x y = Some z \<Longrightarrow> x = sd \<longrightarrow> I y \<longrightarrow> ?Q z"
      and body: "(case matchIteration sd' st of
                    Done again st' \<Rightarrow> if again then loop sd' st' else Some (Done () st')
                  | Throw e s \<Rightarrow> Some (Throw e s)
                  | Fault f \<Rightarrow> Some (Fault f)) = Some r"
    show "sd' = sd \<longrightarrow> I st \<longrightarrow> ?Q r"
    proof (intro impI)
      assume eq: "sd' = sd" and I: "I st"
      show "?Q r"
      proof (cases "matchIteration sd st")
        case (Done again st')
        show ?thesis
        proof (cases again)
          case True
          with Done body eq have "loop sd st' = Some r" by simp
          moreover have "I st'" using assms(3) I Done True by simp
          ultimately show ?thesis using IH by blast
        next
          case False
          with Done have "st' = st" by (simp add: matchIteration_False)
          with False Done body eq I show ?thesis by auto
        qed
      next
        case (Throw e s)
        with body eq I show ?thesis by auto
      next
        case (Fault f)
        with body eq I show ?thesis by auto
      qed
    qed
  qed
  with assms(2) show ?thesis by blast
qed

lemma matchLoop_Done:
  assumes "matchLoop sd st = Some (Done u st')" and "I st"
    and "\<And>s s'. I s \<Longrightarrow> matchIteration sd s = Done True s' \<Longrightarrow> I s'"
  shows "I st'"
  using matchLoop_outcome [OF assms(1), of I, OF assms(2,3)] by auto

section \<open>What the steps of a book operation do to the state\<close>

lemma fill_Some:
  assumes "fill q p ord = Some ord'"
  shows "ord' = ord\<lparr> remaining := remaining ord - q, filled := filled ord + q,
                     avgPrice := F_div (F_plus (F_times (avgPrice ord) (cumQty ord)) (F_times p q))
                                       (cumQty ord + q),
                     cumQty := cumQty ord + q \<rparr>"
  using assms by (auto simp: fill_def split: if_splits)

lemma fill_at_Done:
  assumes "fill_at a q p st = Done u st'"
  shows "\<exists>ord ord'. heap st a = Some ord \<and> fill q p ord = Some ord'
            \<and> st' = st\<lparr> heap := (heap st)(a \<mapsto> ord') \<rparr>"
  using assms by (auto simp: fill_at_def split: option.splits)

lemma side_removeOrder_Done:
  assumes "side_removeOrder sd a st = Done u st'"
  shows "\<exists>ord pre l post. heap st a = Some ord \<and> onList ord
            \<and> heap st' = (heap st)(a \<mapsto> ord\<lparr> onList := False \<rparr>)
            \<and> ladder sd st = pre @ l # post \<and> level_price l = price ord \<and> a \<in> set (nodes l)
            \<and> (ladder sd st' = pre @ post
                \<or> ladder sd st' = pre @ l\<lparr> nodes := remove1 a (nodes l) \<rparr> # post)
            \<and> (sd = BUY \<longrightarrow> asks st' = asks st) \<and> (sd = SELL \<longrightarrow> bids st' = bids st)
            \<and> quotes st' = quotes st \<and> events st' = events st"
proof -
  from assms obtain h' L' where
    r: "PriceLevels_removeOrder (ascending_of sd) a (heap st, ladder sd st) = Done () (h', L')"
    and st': "st' = set_ladder sd (h', L') st"
    by (auto simp: side_removeOrder_def split: outcome.splits)
  from PriceLevels_removeOrder_Done [OF r] st' show ?thesis
    by (cases sd) (auto simp: set_ladder_def ladder_def)
qed

lemma side_insertOrder_Done:
  assumes "side_insertOrder sd a st = Done u st'"
  shows "\<exists>ord pre post. heap st a = Some ord \<and> \<not> onList ord
            \<and> heap st' = (heap st)(a \<mapsto> ord\<lparr> onList := True \<rparr>)
            \<and> ladder sd st = pre @ post
            \<and> (ladder sd st' = pre @ \<lparr> level_price = price ord, nodes = [a] \<rparr> # post
                \<or> (\<exists>l post'. post = l # post' \<and> level_price l = price ord
                      \<and> ladder sd st' = pre @ l\<lparr> nodes := nodes l @ [a] \<rparr> # post'))
            \<and> (sd = BUY \<longrightarrow> asks st' = asks st) \<and> (sd = SELL \<longrightarrow> bids st' = bids st)
            \<and> quotes st' = quotes st \<and> events st' = events st"
proof -
  from assms obtain h' L' where
    r: "PriceLevels_insertOrder (ascending_of sd) a (heap st, ladder sd st) = Done () (h', L')"
    and st': "st' = set_ladder sd (h', L') st"
    by (auto simp: side_insertOrder_def split: outcome.splits)
  from PriceLevels_insertOrder_Done [OF r] st' show ?thesis
    by (cases sd) (auto simp: set_ladder_def ladder_def)
qed

lemma remove_if_done_Done:
  assumes "remove_if_done sd a st = Done u st'"
  shows "\<exists>ord. heap st a = Some ord
            \<and> (if remaining ord = 0 then side_removeOrder sd a st = Done () st' else st' = st)"
  using assms by (auto simp: remove_if_done_def split: option.splits if_splits)

lemma cancelResidual_Done:
  assumes "cancelResidual sd st = Done u st'"
  shows "st' = st
         \<or> (\<exists>a ord st2. PriceLevels_front (heap st) (ladder sd st) = Some a \<and> heap st a = Some ord
               \<and> isMarket ord
               \<and> side_removeOrder sd a (st\<lparr> heap := (heap st)(a \<mapsto> cancel ord) \<rparr>) = Done () st2
               \<and> st' = emit (order_event a st2) st2)"
  using assms
  by (auto simp: cancelResidual_def Let_def split: if_splits option.splits outcome.splits)

lemma matchOrders_Done:
  assumes "matchOrders sd st = Some (Done u st')"
  obtains st1 where "matchLoop sd st = Some (Done () st1)" "cancelResidual sd st1 = Done () st'"
  using assms by (auto simp: matchOrders_def split: option.splits outcome.splits)

section \<open>Trade prices\<close>

lemma fill_at_price:
  assumes "fill_at a q p st = Done u st'"
  shows "order_price (heap st') x = order_price (heap st) x" and "events st' = events st"
  using fill_at_Done [OF assms] by (auto simp: order_price_def dest!: fill_Some)

lemma side_removeOrder_price:
  assumes "side_removeOrder sd a st = Done u st'"
  shows "order_price (heap st') x = order_price (heap st) x" and "events st' = events st"
  using side_removeOrder_Done [OF assms] by (auto simp: order_price_def)

lemma remove_if_done_price:
  assumes "remove_if_done sd a st = Done u st'"
  shows "order_price (heap st') x = order_price (heap st) x" and "events st' = events st"
  using remove_if_done_Done [OF assms] side_removeOrder_price [where sd = sd and a = a and st = st and st' = st']
  by (auto split: if_splits)

lemma at_lower_price_cong:
  assumes "\<And>x. order_price h' x = order_price h x"
  shows "at_lower_price sd h' t = at_lower_price sd h t"
proof -
  have "order_price h' (aggressor t) = order_price h (aggressor t)"
    and "order_price h' (opposite t) = order_price h (opposite t)"
    using assms by auto
  then show ?thesis
    by (auto simp: at_lower_price_def order_price_def split: option.splits)
qed

lemma matchIteration_price:
  assumes "matchIteration sd st = Done True st'"
  shows "(\<forall>x. order_price (heap st') x = order_price (heap st) x)
         \<and> (\<exists>es t. events st' = events st @ es @ [OnTrade t] \<and> (\<forall>t'. OnTrade t' \<notin> set es)
                \<and> at_lower_price sd (heap st) t)"
proof -
  from assms obtain b a bo ao st1 st2 st3 st4 where
      fb: "PriceLevels_front (heap st) (bids st) = Some b"
    and fa: "PriceLevels_front (heap st) (asks st) = Some a"
    and hb: "heap st b = Some bo" and ha: "heap st a = Some ao" and le: "price ao \<le> price bo"
    and f1: "fill_at b (min (remaining bo) (remaining ao)) (min (price bo) (price ao)) st = Done () st1"
    and f2: "fill_at a (min (remaining bo) (remaining ao)) (min (price bo) (price ao)) st1 = Done () st2"
    and r1: "remove_if_done BUY b st2 = Done () st3"
    and r2: "remove_if_done SELL a st3 = Done () st4"
    and st': "st' = emit (order_event b st4 @ order_event a st4 @
             [OnTrade \<lparr> trade_price = min (price bo) (price ao),
                        trade_quantity = min (remaining bo) (remaining ao),
                        aggressor = (if sd = BUY then b else a),
                        opposite = (if sd = BUY then a else b) \<rparr>]) st4"
    by (rule matchIteration_True)
  have pr: "order_price (heap st4) x = order_price (heap st) x" for x
    using fill_at_price(1) [OF f1] fill_at_price(1) [OF f2]
      remove_if_done_price(1) [OF r1] remove_if_done_price(1) [OF r2] by simp
  have ev: "events st4 = events st"
    using fill_at_price(2) [OF f1] fill_at_price(2) [OF f2]
      remove_if_done_price(2) [OF r1] remove_if_done_price(2) [OF r2] by simp
  have "min (price bo) (price ao) = price ao" using le by (simp add: min_def)
  then have low: "at_lower_price sd (heap st)
      \<lparr> trade_price = min (price bo) (price ao),
        trade_quantity = min (remaining bo) (remaining ao),
        aggressor = (if sd = BUY then b else a),
        opposite = (if sd = BUY then a else b) \<rparr>"
    using hb ha le by (auto simp: at_lower_price_def min_def)
  have noT: "OnTrade t' \<notin> set (order_event b st4 @ order_event a st4)" for t'
    by (auto simp: order_event_def split: option.splits)
  show ?thesis
    using pr ev low noT unfolding st' emit_def
    by (intro conjI exI [of _ "order_event b st4 @ order_event a st4"]) auto
qed

lemma cancelResidual_price:
  assumes "cancelResidual sd st = Done u st'"
  shows "(\<forall>x. order_price (heap st') x = order_price (heap st) x)
         \<and> (\<exists>es. events st' = events st @ es \<and> (\<forall>t'. OnTrade t' \<notin> set es))"
proof -
  from cancelResidual_Done [OF assms] show ?thesis
  proof
    assume "st' = st" then show ?thesis by simp
  next
    assume "\<exists>a ord st2. PriceLevels_front (heap st) (ladder sd st) = Some a \<and> heap st a = Some ord
               \<and> isMarket ord
               \<and> side_removeOrder sd a (st\<lparr> heap := (heap st)(a \<mapsto> cancel ord) \<rparr>) = Done () st2
               \<and> st' = emit (order_event a st2) st2"
    then obtain a ord st2 where ha: "heap st a = Some ord"
      and r: "side_removeOrder sd a (st\<lparr> heap := (heap st)(a \<mapsto> cancel ord) \<rparr>) = Done () st2"
      and st': "st' = emit (order_event a st2) st2" by blast
    have "order_price (heap st2) x = order_price (heap st) x" for x
      using side_removeOrder_price(1) [OF r, of x] ha by (auto simp: order_price_def cancel_def)
    moreover have "events st2 = events st"
      using side_removeOrder_price(2) [OF r] by simp
    moreover have "OnTrade t' \<notin> set (order_event a st2)" for t'
      by (auto simp: order_event_def split: option.splits)
    ultimately show ?thesis unfolding st' emit_def by auto
  qed
qed

lemma matchOrders_price:
  assumes "matchOrders sd st = Some (Done u st')"
  shows "\<exists>es. events st' = events st @ es \<and> (\<forall>t. OnTrade t \<in> set es \<longrightarrow> at_lower_price sd (heap st') t)"
proof -
  from assms obtain st1 where loop: "matchLoop sd st = Some (Done () st1)"
    and res: "cancelResidual sd st1 = Done () st'"
    by (rule matchOrders_Done)
  let ?I = "\<lambda>s. (\<forall>x. order_price (heap s) x = order_price (heap st) x)
                \<and> (\<exists>es. events s = events st @ es \<and> (\<forall>t. OnTrade t \<in> set es \<longrightarrow> at_lower_price sd (heap st) t))"
  have "?I st1"
  proof (rule matchLoop_Done [OF loop, of ?I])
    show "?I st" by simp
  next
    fix s s' assume I: "?I s" and it: "matchIteration sd s = Done True s'"
    from I obtain es where pr: "\<And>x. order_price (heap s) x = order_price (heap st) x"
      and es: "events s = events st @ es" "\<forall>t. OnTrade t \<in> set es \<longrightarrow> at_lower_price sd (heap st) t"
      by blast
    from matchIteration_price [OF it] obtain es' t where
      pr': "\<And>x. order_price (heap s') x = order_price (heap s) x"
      and es': "events s' = events s @ es' @ [OnTrade t]" "\<forall>t'. OnTrade t' \<notin> set es'"
      and low: "at_lower_price sd (heap s) t" by blast
    have "at_lower_price sd (heap st) t"
      using low at_lower_price_cong [of "heap s" "heap st" sd t] pr by simp
    with es es' have "events s' = events st @ (es @ es' @ [OnTrade t])
        \<and> (\<forall>t'. OnTrade t' \<in> set (es @ es' @ [OnTrade t]) \<longrightarrow> at_lower_price sd (heap st) t')"
      by auto
    then show "?I s'" using pr pr' by (metis (no_types, lifting))
  qed
  then obtain es where pr: "\<And>x. order_price (heap st1) x = order_price (heap st) x"
    and es: "events st1 = events st @ es" "\<forall>t. OnTrade t \<in> set es \<longrightarrow> at_lower_price sd (heap st) t"
    by blast
  from cancelResidual_price [OF res] obtain es' where
    pr': "\<And>x. order_price (heap st') x = order_price (heap st1) x"
    and es': "events st' = events st1 @ es'" "\<forall>t'. OnTrade t' \<notin> set es'" by blast
  have cong: "at_lower_price sd (heap st') t = at_lower_price sd (heap st) t" for t
    using at_lower_price_cong [of "heap st'" "heap st" sd t] pr pr' by simp
  show ?thesis
    using es es' cong by (intro exI [of _ "es @ es'"]) auto
qed

lemma getOrCreate_cases:
  obtains (known) b where "map_of (books ex) instr = Some b" "getOrCreate instr ex = Done () ex"
  | (full) "map_of (books ex) instr = None" "MAX_INSTRUMENTS \<le> length (books ex)"
      "getOrCreate instr ex = Throw NoRoomInBooks ex"
  | (new) "map_of (books ex) instr = None" "length (books ex) < MAX_INSTRUMENTS"
      "getOrCreate instr ex = Done () (ex\<lparr> books := books ex @ [(instr, new_book)] \<rparr>)"
      "map_of (books ex @ [(instr, new_book)]) instr = Some new_book"
  by (cases "map_of (books ex) instr"; cases "MAX_INSTRUMENTS \<le> length (books ex)")
     (auto simp: getOrCreate_def map_add_def)

section \<open>Books of the exchange\<close>

lemma close_open_book:
  assumes "map_of (books ex) instr = Some b"
  shows "close_book instr (open_book ex b) ex = ex"
  using assms by (simp add: close_book_def open_book_def update_triv)

lemma map_of_close_book:
  "map_of (books (close_book instr st ex)) i =
     (if i = instr then Some \<lparr> the_bids = bids st, the_asks = asks st, the_quotes = quotes st \<rparr>
      else map_of (books ex) i)"
  by (simp add: close_book_def update_conv')

lemma open_close_book:
  "open_book (close_book instr st ex) \<lparr> the_bids = bids st, the_asks = asks st, the_quotes = quotes st \<rparr> = st"
  by (simp add: close_book_def open_book_def)

lemma OrderMap_get_cong:
  assumes "same_identity (heap ex) (heap ex')" and "allOrders ex' = allOrders ex"
  shows "OrderMap_get ex' eid = OrderMap_get ex eid"
proof -
  have "(case heap ex' a of None \<Rightarrow> False | Some ord \<Rightarrow> int (exchangeId ord) = eid)
      = (case heap ex a of None \<Rightarrow> False | Some ord \<Rightarrow> int (exchangeId ord) = eid)" for a
    using assms(1) [unfolded same_identity_def, rule_format, of a]
    by (auto simp: identity_def split: option.splits)
  then show ?thesis
    unfolding OrderMap_get_def assms(2) by simp
qed

lemma same_identity_refl: "same_identity h h"
  by (simp add: same_identity_def)

lemma same_identity_trans:
  "same_identity h h' \<Longrightarrow> same_identity h' h'' \<Longrightarrow> same_identity h h''"
  by (simp add: same_identity_def)

lemma same_identity_upd:
  assumes "h a = Some ord" and "identity ord' = identity ord"
  shows "same_identity h (h(a \<mapsto> ord'))"
  using assms by (simp add: same_identity_def)

lemma same_identity_at:
  assumes "same_identity h h'" and "h a = Some ord"
  obtains ord' where "h' a = Some ord'" "sessionId ord' = sessionId ord"
    "instrument ord' = instrument ord" "exchangeId ord' = exchangeId ord" "side ord' = side ord"
proof -
  from assms have "map_option identity (h' a) = Some (identity ord)"
    by (simp add: same_identity_def)
  then obtain ord' where "h' a = Some ord'" "identity ord' = identity ord" by auto
  with that show ?thesis by (simp add: identity_def)
qed

lemma side_removeOrder_identity:
  assumes "side_removeOrder sd a st = Done u st'"
  shows "same_identity (heap st) (heap st')"
  using side_removeOrder_Done [OF assms]
  by (auto intro!: same_identity_upd simp: identity_def)

lemma OrderBook_cancelOrder_Done:
  assumes "OrderBook_cancelOrder (Some a) st = Done r st'"
  shows "same_identity (heap st) (heap st') \<and> (\<exists>ord'. heap st' a = Some ord' \<and> remaining ord' \<le> 0)"
proof -
  from assms obtain ord where ha: "heap st a = Some ord"
    by (auto simp: OrderBook_cancelOrder_def split: option.splits)
  show ?thesis
  proof (cases "remaining ord > 0")
    case False
    with assms ha have "st' = st"
      by (auto simp: OrderBook_cancelOrder_def)
    with ha False show ?thesis by (simp add: same_identity_refl)
  next
    case True
    let ?st1 = "st\<lparr> heap := (heap st)(a \<mapsto> cancel ord) \<rparr>"
    have id1: "same_identity (heap st) (heap ?st1)"
      using ha by (auto intro!: same_identity_upd simp: identity_def cancel_def)
    show ?thesis
    proof (cases "onList ord")
      case False
      with True assms ha have "st' = ?st1"
        by (auto simp: OrderBook_cancelOrder_def Let_def)
      with id1 show ?thesis by (simp add: cancel_def)
    next
      case onl: True
      with True assms ha obtain st2 where r: "side_removeOrder (side ord) a ?st1 = Done () st2"
        and st': "st' = emit (order_event a st2) st2"
        by (auto simp: OrderBook_cancelOrder_def Let_def split: outcome.splits)
      from side_removeOrder_Done [OF r] have "\<exists>ord'. heap st2 a = Some ord' \<and> remaining ord' \<le> 0"
        by (auto simp: cancel_def)
      moreover have "same_identity (heap st) (heap st2)"
        using id1 side_removeOrder_identity [OF r] by (rule same_identity_trans)
      ultimately show ?thesis unfolding st' emit_def by simp
    qed
  qed
qed

lemma OrderBook_cancelOrder_terminal:
  assumes "heap st a = Some ord" and "remaining ord \<le> 0"
  shows "OrderBook_cancelOrder (Some a) st = Done (- 1) st"
  using assms by (simp add: OrderBook_cancelOrder_def)

lemma OrderMap_bucket_nonneg: "0 \<le> eid \<Longrightarrow> \<not> OrderMap_bucket eid < 0"
  by (simp add: OrderMap_bucket_def TABLE_SIZE_def)

lemma OrderMap_bucket_negative:
  assumes "eid < 0" and "(- eid) mod TABLE_SIZE \<noteq> 0"
  shows "OrderMap_bucket eid < 0"
proof -
  have "0 \<le> (- eid) mod TABLE_SIZE" by (simp add: TABLE_SIZE_def)
  with assms show ?thesis by (simp add: OrderMap_bucket_def)
qed

lemma OrderMap_get_Some:
  assumes "OrderMap_get ex eid = Some a"
  shows "\<exists>ord. heap ex a = Some ord \<and> int (exchangeId ord) = eid"
  using assms unfolding OrderMap_get_def find_Some_iff by (auto split: option.splits)

lemma OrderMap_get_nonneg: "OrderMap_get ex eid = Some a \<Longrightarrow> 0 \<le> eid"
  using OrderMap_get_Some by fastforce

lemma Exchange_cancel_Done_bucket:
  "Exchange_cancel eid sid ex = Done r ex' \<Longrightarrow> \<not> OrderMap_bucket eid < 0"
  by (auto simp: Exchange_cancel_def split: if_splits)

lemma Exchange_cancel_again:
  assumes "Exchange_cancel eid sid ex = Done r ex'"
  shows "Exchange_cancel eid sid ex' = Done False ex'"
proof (cases "OrderMap_get ex eid")
  case None
  with assms show ?thesis by (auto simp: Exchange_cancel_def Exchange_cancel_Done_bucket [OF assms])
next
  case (Some a)
  with assms obtain ord where ha: "heap ex a = Some ord"
    by (auto simp: Exchange_cancel_def Exchange_cancel_Done_bucket [OF assms] split: option.splits)
  show ?thesis
  proof (cases "sessionId ord \<noteq> sid \<or> map_of (books ex) (instrument ord) = None")
    case True
    with assms Some ha have "ex' = ex \<and> r = False"
      by (auto simp: Exchange_cancel_def Exchange_cancel_Done_bucket [OF assms] split: option.splits)
    with assms show ?thesis by simp
  next
    case False
    then obtain b where sess: "sessionId ord = sid" and b: "map_of (books ex) (instrument ord) = Some b"
      by auto
    with assms Some ha obtain res st where
      c: "OrderBook_cancelOrder (Some a) (open_book ex b) = Done res st"
      and ex': "ex' = close_book (instrument ord) st ex"
      by (auto simp: Exchange_cancel_def Exchange_cancel_Done_bucket [OF assms] split: outcome.splits)
    let ?b' = "\<lparr> the_bids = bids st, the_asks = asks st, the_quotes = quotes st \<rparr>"
    from OrderBook_cancelOrder_Done [OF c] obtain ord' where
      id: "same_identity (heap ex) (heap st)" and ha': "heap st a = Some ord'" and rem: "remaining ord' \<le> 0"
      by (auto simp: open_book_def)
    have heap': "heap ex' = heap st" and all': "allOrders ex' = allOrders ex"
      unfolding ex' by (simp_all add: close_book_def)
    have get': "OrderMap_get ex' eid = Some a"
      using OrderMap_get_cong [of ex ex' eid] id heap' all' Some by simp
    from id ha ha' have fields: "sessionId ord' = sid" "instrument ord' = instrument ord"
      using sess by (auto elim!: same_identity_at)
    have book': "map_of (books ex') (instrument ord') = Some ?b'"
      unfolding ex' fields by (simp add: map_of_close_book)
    have op: "open_book ex' ?b' = st"
      unfolding ex' by (rule open_close_book)
    have again: "OrderBook_cancelOrder (Some a) st = Done (- 1) st"
      using ha' rem by (rule OrderBook_cancelOrder_terminal)
    have "close_book (instrument ord') (open_book ex' ?b') ex' = ex'"
      using book' by (rule close_open_book)
    then show ?thesis
      using get' ha' heap' fields book' op again
      by (simp add: Exchange_cancel_def Exchange_cancel_Done_bucket [OF assms])
  qed
qed

section \<open>Submissions\<close>

lemma resting_close_open:
  assumes "map_of (books ex1) instr = Some b"
    and "books ex2 = books ex1"
  shows "resting (close_book instr (open_book ex2 b) ex2) i s = resting ex1 i s"
  using assms by (simp add: resting_def map_of_close_book open_book_def)

section \<open>Exceptions\<close>

lemma remove_dead_handle:
  assumes "h a = Some ord" and "\<not> onList ord"
  shows "remove a (h, l) = Throw NodeNullOnRemoval (h, l)"
  using assms by (simp add: remove_def)

lemma PriceLevels_removeOrder_no_level:
  assumes "h a = Some ord" and "\<forall>l\<in>set L. level_price l \<noteq> price ord"
  shows "PriceLevels_removeOrder asc a (h, L) = Throw NoPriceLevel (h, L)"
proof -
  define itr where "itr = lower_bound asc L (price ord)"
  have "itr \<le> length L"
    unfolding itr_def lower_bound_def by (rule length_takeWhile_le)
  then have "itr = length L \<or> level_price (L ! itr) \<noteq> price ord"
    using assms(2) by (cases "itr = length L") auto
  then show ?thesis
    using assms(1) by (simp add: PriceLevels_removeOrder_def itr_def [symmetric] Let_def)
qed

lemma Exchange_insertOrder_never_throws:
  "Exchange_insertOrder sid instr p q sd oid ex \<noteq> Some (Throw e ex')"
  by (auto simp: Exchange_insertOrder_def split: outcome.splits option.splits prod.splits)

lemma Exchange_insertOrder_catches:
  assumes "map_of (books ex) instr = Some b"
    and "create_order sid oid instr p q sd ex = (n, ex2)"
    and "OrderBook_insertOrder (Some n) (open_book ex2 b) = Some (Throw e st)"
  shows "Exchange_insertOrder sid instr p q sd oid ex = Some (Done None (close_book instr st ex2))"
  using assms by (simp add: Exchange_insertOrder_def getOrCreate_def)

lemma Exchange_cancel_propagates:
  assumes "OrderMap_get ex eid = Some a" and "heap ex a = Some ord" and "sessionId ord = sid"
    and "map_of (books ex) (instrument ord) = Some b"
    and "OrderBook_cancelOrder (Some a) (open_book ex b) = Throw e st"
  shows "Exchange_cancel eid sid ex = Throw e (close_book (instrument ord) st ex)"
  using assms OrderMap_bucket_nonneg [OF OrderMap_get_nonneg [OF assms(1)]]
  by (simp add: Exchange_cancel_def)

section \<open>Quotes\<close>

lemma PriceLevels_insertOrder_total:
  assumes "h a = Some ord" and "\<not> onList ord"
  shows "\<exists>L'. PriceLevels_insertOrder asc a (h, L) = Done () (h(a \<mapsto> ord\<lparr> onList := True \<rparr>), L')"
  using assms by (simp add: PriceLevels_insertOrder_def pushback_def Let_def)

lemma side_insertOrder_total:
  assumes "heap st a = Some ord" and "\<not> onList ord"
  shows "\<exists>st'. side_insertOrder sd a st = Done () st'"
  using PriceLevels_insertOrder_total [where h = "heap st" and a = a and ord = ord
      and asc = "ascending_of sd" and L = "ladder sd st"] assms
  by (auto simp: side_insertOrder_def)

lemma side_insertOrder_level:
  assumes "side_insertOrder sd a st = Done u st'"
  shows "\<exists>ord. heap st a = Some ord \<and> \<not> onList ord
           \<and> heap st' = (heap st)(a \<mapsto> ord\<lparr> onList := True \<rparr>)
           \<and> (\<exists>l\<in>set (ladder sd st'). level_price l = price ord \<and> a \<in> set (nodes l))"
  using side_insertOrder_Done [OF assms] by auto

lemma quote_side_zero: "quote_side sd order p 0 st = Some (Done () st)"
  by (simp add: quote_side_def)

lemma quote_side_Done:
  assumes "quote_side sd (Some a) p q st = Some (Done u st')" and "q \<noteq> 0"
  shows "\<exists>ord st1. heap st a = Some ord \<and> \<not> onList ord
           \<and> side_insertOrder sd a (st\<lparr> heap := (heap st)(a \<mapsto> rearm p q ord) \<rparr>) = Done () st1
           \<and> heap st1 = (heap st)(a \<mapsto> ord\<lparr> price := p, quantity := q, remaining := q,
                                               filled := 0, onList := True \<rparr>)
           \<and> (\<exists>l\<in>set (ladder sd st1). level_price l = p \<and> a \<in> set (nodes l))
           \<and> matchOrders sd st1 = Some (Done u st')"
proof -
  from assms obtain ord st1 where ha: "heap st a = Some ord"
    and ins: "side_insertOrder sd a (st\<lparr> heap := (heap st)(a \<mapsto> rearm p q ord) \<rparr>) = Done () st1"
    and m: "matchOrders sd st1 = Some (Done u st')"
    by (auto simp: quote_side_def split: option.splits outcome.splits)
  from side_insertOrder_level [OF ins] ha m ins show ?thesis
    by (auto simp: rearm_def)
qed

lemma remove_if_onList_Done:
  assumes "remove_if_onList sd order st = Done u st'"
  shows "\<exists>a ord. order = Some a \<and> heap st a = Some ord
           \<and> (if onList ord then side_removeOrder sd a st = Done () st' else st' = st)
           \<and> heap st' = (heap st)(a \<mapsto> ord\<lparr> onList := False \<rparr>)"
proof -
  from assms obtain a ord where o: "order = Some a" and ha: "heap st a = Some ord"
    by (auto simp: remove_if_onList_def split: option.splits)
  show ?thesis
  proof (cases "onList ord")
    case True
    with assms o ha have r: "side_removeOrder sd a st = Done () st'"
      by (simp add: remove_if_onList_def)
    from side_removeOrder_Done [OF r] o ha True r show ?thesis by auto
  next
    case False
    with assms o ha have "st' = st" by (simp add: remove_if_onList_def)
    moreover have "(heap st)(a \<mapsto> ord\<lparr> onList := False \<rparr>) = heap st"
      using ha False by (intro ext) auto
    ultimately show ?thesis using o ha False by simp
  qed
qed

lemma OrderBook_quote_Done:
  assumes "OrderBook_quote qs bp bq ap aq st = Some (Done u st')"
  shows "\<exists>b a st1 st2 st3. quote_bid qs = Some b \<and> quote_ask qs = Some a
           \<and> remove_if_onList BUY (Some b) st = Done () st1
           \<and> remove_if_onList SELL (Some a) st1 = Done () st2
           \<and> quote_side BUY (Some b) bp bq st2 = Some (Done () st3)
           \<and> quote_side SELL (Some a) ap aq st3 = Some (Done u st')"
proof -
  from assms obtain st1 where r1: "remove_if_onList BUY (quote_bid qs) st = Done () st1"
    by (auto simp: OrderBook_quote_def split: outcome.splits)
  with assms obtain st2 where r2: "remove_if_onList SELL (quote_ask qs) st1 = Done () st2"
    by (auto simp: OrderBook_quote_def split: outcome.splits)
  with assms r1 obtain st3 where q1: "quote_side BUY (quote_bid qs) bp bq st2 = Some (Done () st3)"
    and q2: "quote_side SELL (quote_ask qs) ap aq st3 = Some (Done u st')"
    by (auto simp: OrderBook_quote_def split: outcome.splits option.splits)
  from remove_if_onList_Done [OF r1] obtain b where "quote_bid qs = Some b" by blast
  moreover from remove_if_onList_Done [OF r2] obtain a where "quote_ask qs = Some a" by blast
  ultimately show ?thesis using r1 r2 q1 q2 by auto
qed

section \<open>Frames\<close>

lemma frame_refl: "frame X st st"
  by (simp add: frame_def same_identity_refl)

lemma frame_mono: "frame X st st' \<Longrightarrow> X \<subseteq> Y \<Longrightarrow> frame Y st st'"
  by (auto simp: frame_def)

lemma frame_trans:
  assumes "frame X st st'" and "frame X st' st''"
  shows "frame X st st''"
proof -
  have "same_identity (heap st) (heap st'')"
    using assms by (auto simp: frame_def same_identity_def)
  moreover have "\<forall>x. x \<notin> X \<longrightarrow> heap st'' x = heap st x"
    using assms by (simp add: frame_def)
  moreover have "ladder_nodes st'' \<subseteq> ladder_nodes st \<union> X"
    using assms unfolding frame_def by blast
  moreover have "quotes st'' = quotes st"
    using assms by (simp add: frame_def)
  ultimately show ?thesis by (simp add: frame_def)
qed

lemma frame_emit: "frame X st (emit es st)"
  by (simp add: frame_def emit_def same_identity_refl ladder_nodes_def)

lemma frame_heap_upd:
  assumes "heap st a = Some ord" and "identity ord' = identity ord"
  shows "frame {a} st (st\<lparr> heap := (heap st)(a \<mapsto> ord') \<rparr>)"
  using assms by (auto simp: frame_def ladder_nodes_def intro: same_identity_upd)

lemma identity_fill:
  assumes "fill q p ord = Some ord'"
  shows "identity ord' = identity ord"
  using fill_Some [OF assms] by (simp add: identity_def)

lemma fill_at_frame:
  assumes "fill_at a q p st = Done u st'"
  shows "frame {a} st st'"
  using fill_at_Done [OF assms] by (auto intro: frame_heap_upd identity_fill)

lemma all_nodes_append [simp]: "all_nodes (xs @ ys) = all_nodes xs @ all_nodes ys"
  by (simp add: all_nodes_def)

lemma all_nodes_Cons [simp]: "all_nodes (l # ls) = nodes l @ all_nodes ls"
  by (simp add: all_nodes_def)

lemma all_nodes_Nil [simp]: "all_nodes [] = []"
  by (simp add: all_nodes_def)

lemma side_removeOrder_nodes:
  assumes "side_removeOrder sd a st = Done u st'"
  shows "a \<in> ladder_nodes st" and "ladder_nodes st' \<subseteq> ladder_nodes st"
    and "resting_count st' < resting_count st"
proof -
  from side_removeOrder_Done [OF assms] obtain ord pre l post where
    "heap st a = Some ord" and lad: "ladder sd st = pre @ l # post" and mem: "a \<in> set (nodes l)"
    and lad': "ladder sd st' = pre @ post \<or> ladder sd st' = pre @ l\<lparr> nodes := remove1 a (nodes l) \<rparr> # post"
    and oth: "sd = BUY \<longrightarrow> asks st' = asks st" "sd = SELL \<longrightarrow> bids st' = bids st"
    by blast
  have len: "length (remove1 a (nodes l)) < length (nodes l)"
    using mem by (simp add: length_remove1) (cases "nodes l", auto)
  have pos: "0 < length (nodes l)" using mem by (cases "nodes l") auto
  show "a \<in> ladder_nodes st"
    using lad mem by (cases sd) (auto simp: ladder_nodes_def ladder_def)
  show "ladder_nodes st' \<subseteq> ladder_nodes st"
    using lad lad' oth set_remove1_subset [of a "nodes l"]
    by (cases sd) (auto simp: ladder_nodes_def ladder_def)
  show "resting_count st' < resting_count st"
    using lad lad' oth len pos by (cases sd) (auto simp: resting_count_def ladder_def)
qed

lemma side_removeOrder_frame:
  assumes "side_removeOrder sd a st = Done u st'"
  shows "frame {a} st st'"
proof -
  from side_removeOrder_Done [OF assms] obtain ord where
    "heap st a = Some ord" "heap st' = (heap st)(a \<mapsto> ord\<lparr> onList := False \<rparr>)" "quotes st' = quotes st"
    by blast
  moreover have "same_identity (heap st) (heap st')"
    using assms by (rule side_removeOrder_identity)
  ultimately show ?thesis
    using side_removeOrder_nodes(2) [OF assms] by (auto simp: frame_def)
qed

lemma side_insertOrder_nodes:
  assumes "side_insertOrder sd a st = Done u st'"
  shows "ladder_nodes st' = insert a (ladder_nodes st)"
proof -
  from side_insertOrder_Done [OF assms] obtain ord pre post where
    "heap st a = Some ord" and lad: "ladder sd st = pre @ post"
    and lad': "ladder sd st' = pre @ \<lparr> level_price = price ord, nodes = [a] \<rparr> # post
                \<or> (\<exists>l post'. post = l # post' \<and> level_price l = price ord
                      \<and> ladder sd st' = pre @ l\<lparr> nodes := nodes l @ [a] \<rparr> # post')"
    and oth: "sd = BUY \<longrightarrow> asks st' = asks st" "sd = SELL \<longrightarrow> bids st' = bids st"
    by blast
  show ?thesis
    using lad lad' oth by (cases sd) (auto simp: ladder_nodes_def ladder_def)
qed

lemma side_insertOrder_frame:
  assumes "side_insertOrder sd a st = Done u st'"
  shows "frame {a} st st'"
proof -
  from side_insertOrder_Done [OF assms] obtain ord where
    "heap st a = Some ord" "heap st' = (heap st)(a \<mapsto> ord\<lparr> onList := True \<rparr>)" "quotes st' = quotes st"
    by blast
  then show ?thesis
    using side_insertOrder_nodes [OF assms]
    by (auto simp: frame_def identity_def intro!: same_identity_upd)
qed

lemma remove_if_done_frame:
  assumes "remove_if_done sd a st = Done u st'"
  shows "frame {a} st st'" and "ladder_nodes st' \<subseteq> ladder_nodes st"
proof -
  from remove_if_done_Done [OF assms] obtain ord where "heap st a = Some ord" and
    c: "if remaining ord = 0 then side_removeOrder sd a st = Done () st' else st' = st" by auto
  show "frame {a} st st'"
    using c side_removeOrder_frame by (cases "remaining ord = 0") (auto simp: frame_refl)
  show "ladder_nodes st' \<subseteq> ladder_nodes st"
    using c side_removeOrder_nodes(2) by (cases "remaining ord = 0") auto
qed

lemma front_in_nodes:
  assumes "PriceLevels_front h L = Some a"
  shows "a \<in> set (all_nodes L)" and "\<exists>ord. h a = Some ord \<and> onList ord"
    and "\<exists>l ls. L = l # ls \<and> (\<exists>as. nodes l = a # as)"
  using assms
  by (auto simp: PriceLevels_front_def front_def split: list.splits option.splits if_splits)

lemma matchIteration_frame:
  assumes "matchIteration sd st = Done c st'"
  shows "frame (ladder_nodes st) st st'" and "ladder_nodes st' \<subseteq> ladder_nodes st"
proof -
  have "frame (ladder_nodes st) st st' \<and> ladder_nodes st' \<subseteq> ladder_nodes st"
  proof (cases c)
    case False
    with assms have "st' = st" by (simp add: matchIteration_False)
    then show ?thesis by (simp add: frame_refl)
  next
    case True
    with assms have "matchIteration sd st = Done True st'" by simp
    then obtain b a bo ao st1 st2 st3 st4 where
        fb: "PriceLevels_front (heap st) (bids st) = Some b"
      and fa: "PriceLevels_front (heap st) (asks st) = Some a"
      and hb: "heap st b = Some bo" and ha: "heap st a = Some ao" and le: "price ao \<le> price bo"
      and f1: "fill_at b (min (remaining bo) (remaining ao)) (min (price bo) (price ao)) st = Done () st1"
      and f2: "fill_at a (min (remaining bo) (remaining ao)) (min (price bo) (price ao)) st1 = Done () st2"
      and r1: "remove_if_done BUY b st2 = Done () st3"
      and r2: "remove_if_done SELL a st3 = Done () st4"
      and st': "st' = emit (order_event b st4 @ order_event a st4 @
             [OnTrade \<lparr> trade_price = min (price bo) (price ao),
                        trade_quantity = min (remaining bo) (remaining ao),
                        aggressor = (if sd = BUY then b else a),
                        opposite = (if sd = BUY then a else b) \<rparr>]) st4"
      by (rule matchIteration_True)
    let ?X = "ladder_nodes st"
    have ba: "{b} \<subseteq> ?X" "{a} \<subseteq> ?X"
      using front_in_nodes(1) [OF fb] front_in_nodes(1) [OF fa] by (auto simp: ladder_nodes_def)
    have s1: "frame ?X st st1" using fill_at_frame [OF f1] ba(1) by (rule frame_mono)
    have s2: "frame ?X st1 st2" using fill_at_frame [OF f2] ba(2) by (rule frame_mono)
    have s3: "frame ?X st2 st3" using remove_if_done_frame(1) [OF r1] ba(1) by (rule frame_mono)
    have s4: "frame ?X st3 st4" using remove_if_done_frame(1) [OF r2] ba(2) by (rule frame_mono)
    have "frame ?X st st4"
      by (rule frame_trans [OF frame_trans [OF frame_trans [OF s1 s2] s3] s4])
    then have "frame ?X st st'"
      unfolding st' using frame_emit by (rule frame_trans)
    moreover have "ladder_nodes st' \<subseteq> ?X"
      using calculation by (auto simp: frame_def)
    ultimately show ?thesis by simp
  qed
  then show "frame (ladder_nodes st) st st'" and "ladder_nodes st' \<subseteq> ladder_nodes st" by simp_all
qed

lemma matchLoop_frame:
  assumes "matchLoop sd st = Some (Done u st')"
  shows "frame (ladder_nodes st) st st'"
proof -
  let ?X = "ladder_nodes st"
  let ?I = "\<lambda>s. frame ?X st s \<and> ladder_nodes s \<subseteq> ?X"
  have "?I st'"
  proof (rule matchLoop_Done [OF assms, of ?I])
    show "?I st" by (simp add: frame_refl)
  next
    fix s s' assume I: "?I s" and it: "matchIteration sd s = Done True s'"
    have "frame ?X s s'"
      using matchIteration_frame(1) [OF it] by (rule frame_mono) (use I in simp)
    with I have "frame ?X st s'" by (auto elim: frame_trans)
    moreover have "ladder_nodes s' \<subseteq> ?X"
      using matchIteration_frame(2) [OF it] I by blast
    ultimately show "?I s'" by simp
  qed
  then show ?thesis by simp
qed

lemma cancelResidual_frame:
  assumes "cancelResidual sd st = Done u st'"
  shows "frame (ladder_nodes st) st st'"
proof -
  from cancelResidual_Done [OF assms] show ?thesis
  proof
    assume "st' = st" then show ?thesis by (simp add: frame_refl)
  next
    assume "\<exists>a ord st2. PriceLevels_front (heap st) (ladder sd st) = Some a \<and> heap st a = Some ord
               \<and> isMarket ord
               \<and> side_removeOrder sd a (st\<lparr> heap := (heap st)(a \<mapsto> cancel ord) \<rparr>) = Done () st2
               \<and> st' = emit (order_event a st2) st2"
    then obtain a ord st2 where fr: "PriceLevels_front (heap st) (ladder sd st) = Some a"
      and ha: "heap st a = Some ord"
      and r: "side_removeOrder sd a (st\<lparr> heap := (heap st)(a \<mapsto> cancel ord) \<rparr>) = Done () st2"
      and st': "st' = emit (order_event a st2) st2" by blast
    let ?X = "ladder_nodes st"
    have a: "{a} \<subseteq> ?X"
      using front_in_nodes(1) [OF fr] by (cases sd) (auto simp: ladder_nodes_def ladder_def)
    have "frame {a} st (st\<lparr> heap := (heap st)(a \<mapsto> cancel ord) \<rparr>)"
      using ha by (rule frame_heap_upd) (simp add: identity_def cancel_def)
    then have s1: "frame ?X st (st\<lparr> heap := (heap st)(a \<mapsto> cancel ord) \<rparr>)"
      using a by (rule frame_mono)
    have s2: "frame ?X (st\<lparr> heap := (heap st)(a \<mapsto> cancel ord) \<rparr>) st2"
      using side_removeOrder_frame [OF r] a by (rule frame_mono)
    show ?thesis
      unfolding st' by (rule frame_trans [OF frame_trans [OF s1 s2] frame_emit])
  qed
qed

lemma matchOrders_frame:
  assumes "matchOrders sd st = Some (Done u st')"
  shows "frame (ladder_nodes st) st st'"
proof -
  from assms obtain st1 where loop: "matchLoop sd st = Some (Done () st1)"
    and res: "cancelResidual sd st1 = Done () st'"
    by (rule matchOrders_Done)
  have f1: "frame (ladder_nodes st) st st1" using loop by (rule matchLoop_frame)
  then have "ladder_nodes st1 \<subseteq> ladder_nodes st" by (auto simp: frame_def)
  with cancelResidual_frame [OF res] have "frame (ladder_nodes st) st1 st'"
    by (rule frame_mono)
  with f1 show ?thesis by (rule frame_trans)
qed

lemma frame_chain:
  assumes "frame X st st'" and "frame Y st' st''" and "X \<subseteq> Z" and "Y \<subseteq> Z"
  shows "frame Z st st''"
  using frame_mono [OF assms(1,3)] frame_mono [OF assms(2,4)] by (rule frame_trans)

lemma matchOrders_frame_in:
  assumes "matchOrders sd st = Some (Done u st')" and "ladder_nodes st \<subseteq> Z"
  shows "frame Z st st'"
  using matchOrders_frame [OF assms(1)] assms(2) by (rule frame_mono)

lemma OrderBook_insertOrder_frame:
  assumes "OrderBook_insertOrder (Some a) st = Some (Done u st')"
  shows "frame (insert a (ladder_nodes st)) st st'"
proof -
  from assms obtain ord where ha: "heap st a = Some ord"
    by (auto simp: OrderBook_insertOrder_def split: option.splits)
  show ?thesis
  proof (cases "remaining ord \<le> 0")
    case True
    with assms ha have "st' = st" by (simp add: OrderBook_insertOrder_def)
    then show ?thesis by (simp add: frame_refl)
  next
    case False
    with assms ha obtain st1 where ins: "side_insertOrder (side ord) a st = Done () st1"
      and m: "matchOrders (side ord) (emit (order_event a st1) st1) = Some (Done u st')"
      by (auto simp: OrderBook_insertOrder_def split: outcome.splits)
    let ?Z = "insert a (ladder_nodes st)"
    have f1: "frame ?Z st st1"
      using side_insertOrder_frame [OF ins] by (rule frame_mono) simp
    have f2: "frame ?Z st1 (emit (order_event a st1) st1)"
      by (rule frame_emit)
    have "ladder_nodes (emit (order_event a st1) st1) = ?Z"
      using side_insertOrder_nodes [OF ins] by (simp add: emit_def ladder_nodes_def)
    then have "ladder_nodes (emit (order_event a st1) st1) \<subseteq> ?Z" by simp
    then have f3: "frame ?Z (emit (order_event a st1) st1) st'"
      by (rule matchOrders_frame_in [OF m])
    show ?thesis by (rule frame_trans [OF frame_trans [OF f1 f2] f3])
  qed
qed

lemma quote_side_frame:
  assumes "quote_side sd (Some a) p q st = Some (Done u st')"
  shows "frame (insert a (ladder_nodes st)) st st'"
proof (cases "q = 0")
  case True
  with assms have "st' = st" by (simp add: quote_side_def)
  then show ?thesis by (simp add: frame_refl)
next
  case False
  from quote_side_Done [OF assms False] obtain ord st1 where ha: "heap st a = Some ord"
    and ins: "side_insertOrder sd a (st\<lparr> heap := (heap st)(a \<mapsto> rearm p q ord) \<rparr>) = Done () st1"
    and m: "matchOrders sd st1 = Some (Done u st')" by blast
  let ?Z = "insert a (ladder_nodes st)"
  let ?s0 = "st\<lparr> heap := (heap st)(a \<mapsto> rearm p q ord) \<rparr>"
  have "frame {a} st ?s0"
    using ha by (rule frame_heap_upd) (simp add: identity_def rearm_def)
  then have f1: "frame ?Z st ?s0" by (rule frame_mono) simp
  have f2: "frame ?Z ?s0 st1"
    using side_insertOrder_frame [OF ins] by (rule frame_mono) simp
  have "ladder_nodes st1 = ?Z"
    using side_insertOrder_nodes [OF ins] by (simp add: ladder_nodes_def)
  then have "ladder_nodes st1 \<subseteq> ?Z" by simp
  then have f3: "frame ?Z st1 st'"
    by (rule matchOrders_frame_in [OF m])
  show ?thesis by (rule frame_trans [OF frame_trans [OF f1 f2] f3])
qed

lemma remove_if_onList_frame:
  assumes "remove_if_onList sd (Some a) st = Done u st'"
  shows "frame {a} st st'" and "ladder_nodes st' \<subseteq> ladder_nodes st"
proof -
  from remove_if_onList_Done [OF assms] obtain ord where "heap st a = Some ord" and
    c: "if onList ord then side_removeOrder sd a st = Done () st' else st' = st" by auto
  show "frame {a} st st'"
    using c side_removeOrder_frame by (cases "onList ord") (auto simp: frame_refl)
  show "ladder_nodes st' \<subseteq> ladder_nodes st"
    using c side_removeOrder_nodes(2) by (cases "onList ord") auto
qed

lemma OrderBook_quote_frame:
  assumes "OrderBook_quote qs bp bq ap aq st = Some (Done u st')"
    and "quote_bid qs = Some b" and "quote_ask qs = Some a"
  shows "frame ({b, a} \<union> ladder_nodes st) st st'"
proof -
  from OrderBook_quote_Done [OF assms(1)] assms(2,3) obtain st1 st2 st3 where
    r1: "remove_if_onList BUY (Some b) st = Done () st1"
    and r2: "remove_if_onList SELL (Some a) st1 = Done () st2"
    and q1: "quote_side BUY (Some b) bp bq st2 = Some (Done () st3)"
    and q2: "quote_side SELL (Some a) ap aq st3 = Some (Done u st')" by auto
  let ?Z = "{b, a} \<union> ladder_nodes st"
  have f1: "frame ?Z st st1"
    using remove_if_onList_frame(1) [OF r1] by (rule frame_mono) simp
  have f2: "frame ?Z st1 st2"
    using remove_if_onList_frame(1) [OF r2] by (rule frame_mono) simp
  have n2: "ladder_nodes st2 \<subseteq> ladder_nodes st"
    using remove_if_onList_frame(2) [OF r1] remove_if_onList_frame(2) [OF r2] by simp
  have f3: "frame ?Z st2 st3"
    using quote_side_frame [OF q1] by (rule frame_mono) (use n2 in auto)
  have "frame ?Z st st3"
    by (rule frame_trans [OF frame_trans [OF f1 f2] f3])
  then have n3: "ladder_nodes st3 \<subseteq> ?Z" by (auto simp: frame_def)
  have f4: "frame ?Z st3 st'"
    using quote_side_frame [OF q2] by (rule frame_mono) (use n3 in auto)
  show ?thesis
    by (rule frame_trans [OF frame_trans [OF frame_trans [OF f1 f2] f3] f4])
qed

lemma OrderBook_cancelOrder_frame:
  assumes "OrderBook_cancelOrder (Some a) st = Done r st'"
  shows "frame {a} st st'"
proof -
  from assms obtain ord where ha: "heap st a = Some ord"
    by (auto simp: OrderBook_cancelOrder_def split: option.splits)
  let ?st1 = "st\<lparr> heap := (heap st)(a \<mapsto> cancel ord) \<rparr>"
  have f1: "frame {a} st ?st1"
    using ha by (rule frame_heap_upd) (simp add: identity_def cancel_def)
  consider (same) "st' = st" | (plain) "st' = ?st1"
    | (removed) st2 where "side_removeOrder (side ord) a ?st1 = Done () st2"
        "st' = emit (order_event a st2) st2"
    using assms ha
    by (auto simp: OrderBook_cancelOrder_def Let_def split: if_splits outcome.splits)
  then show ?thesis
  proof cases
    case same
    then show ?thesis by (simp add: frame_refl)
  next
    case plain
    with f1 show ?thesis by simp
  next
    case removed
    show ?thesis
      unfolding removed(2)
      by (rule frame_trans [OF frame_trans [OF f1 side_removeOrder_frame [OF removed(1)]] frame_emit])
  qed
qed

section \<open>The ladder invariant\<close>

lemma rests_at_iff:
  "(case h a of None \<Rightarrow> False
    | Some ord \<Rightarrow> onList ord \<and> side ord = sd \<and> instrument ord = n \<and> price ord = p)
   \<longleftrightarrow> (\<exists>ord. h a = Some ord \<and> onList ord \<and> side ord = sd \<and> instrument ord = n \<and> price ord = p)"
  by (cases "h a") simp_all

lemma rests_ok_iff:
  "rests_ok n sd h L \<longleftrightarrow>
     distinct (all_nodes L)
     \<and> (\<forall>l\<in>set L. \<forall>a\<in>set (nodes l).
           \<exists>ord. h a = Some ord \<and> onList ord \<and> side ord = sd \<and> instrument ord = n
                 \<and> price ord = level_price l)"
  unfolding rests_ok_def rests_at_iff ..

lemma rests_ok_cong:
  assumes "rests_ok n sd h L"
    and "\<And>x. x \<in> set (all_nodes L) \<Longrightarrow> h' x = h x"
  shows "rests_ok n sd h' L"
  unfolding rests_ok_iff
proof (intro conjI ballI)
  show "distinct (all_nodes L)" using assms(1) by (simp add: rests_ok_iff)
next
  fix l a assume l: "l \<in> set L" and a: "a \<in> set (nodes l)"
  then have "a \<in> set (all_nodes L)" by (auto simp: all_nodes_def)
  then have "h' a = h a" by (rule assms(2))
  moreover have "\<exists>ord. h a = Some ord \<and> onList ord \<and> side ord = sd \<and> instrument ord = n
                 \<and> price ord = level_price l"
    using assms(1) l a by (simp add: rests_ok_iff)
  ultimately show "\<exists>ord. h' a = Some ord \<and> onList ord \<and> side ord = sd \<and> instrument ord = n
                 \<and> price ord = level_price l"
    by simp
qed

lemma rests_ok_node:
  assumes "rests_ok n sd h L" and "a \<in> set (all_nodes L)"
  shows "\<exists>ord. h a = Some ord \<and> onList ord \<and> side ord = sd \<and> instrument ord = n"
proof -
  from assms(2) obtain l where "l \<in> set L" "a \<in> set (nodes l)"
    by (auto simp: all_nodes_def)
  with assms(1) show ?thesis unfolding rests_ok_iff by blast
qed

lemma rests_ok_same_place:
  assumes "rests_ok n sd h L"
    and "\<And>x ord. h x = Some ord \<Longrightarrow> \<exists>ord'. h' x = Some ord' \<and> onList ord' = onList ord
            \<and> side ord' = side ord \<and> instrument ord' = instrument ord \<and> price ord' = price ord"
  shows "rests_ok n sd h' L"
  unfolding rests_ok_iff
proof (intro conjI ballI)
  show "distinct (all_nodes L)" using assms(1) by (simp add: rests_ok_iff)
next
  fix l a assume l: "l \<in> set L" and a: "a \<in> set (nodes l)"
  with assms(1) obtain ord where "h a = Some ord" "onList ord" "side ord = sd"
    "instrument ord = n" "price ord = level_price l"
    unfolding rests_ok_iff by blast
  with assms(2) [of a ord]
  show "\<exists>ord. h' a = Some ord \<and> onList ord \<and> side ord = sd \<and> instrument ord = n
                 \<and> price ord = level_price l"
    by auto
qed

lemma rests_ok_remove:
  assumes ok: "rests_ok n sd h (pre @ l # post)" and mem: "a \<in> set (nodes l)"
    and L': "L' = pre @ post \<or> L' = pre @ l\<lparr> nodes := remove1 a (nodes l) \<rparr> # post"
    and same: "\<And>x. x \<noteq> a \<Longrightarrow> h' x = h x"
  shows "rests_ok n sd h' L'" and "a \<notin> set (all_nodes L')"
proof -
  from ok have dist: "distinct (all_nodes pre @ nodes l @ all_nodes post)"
    and pt: "\<And>k x. k \<in> set (pre @ l # post) \<Longrightarrow> x \<in> set (nodes k) \<Longrightarrow>
          \<exists>ord. h x = Some ord \<and> onList ord \<and> side ord = sd \<and> instrument ord = n
                \<and> price ord = level_price k"
    unfolding rests_ok_iff by auto
  from dist mem have apre: "a \<notin> set (all_nodes pre)" and apost: "a \<notin> set (all_nodes post)"
    by auto
  from dist have dl: "distinct (nodes l)" by simp
  then have arem: "a \<notin> set (remove1 a (nodes l))" by simp
  have sub: "set (remove1 a (nodes l)) \<subseteq> set (nodes l)" by (rule set_remove1_subset)
  show notin: "a \<notin> set (all_nodes L')"
    using L' apre apost arem by auto
  have dist': "distinct (all_nodes L')"
    using L' dist sub dl by (auto simp: distinct_remove1)
  have "\<exists>ord. h' x = Some ord \<and> onList ord \<and> side ord = sd \<and> instrument ord = n
                \<and> price ord = level_price k"
    if k: "k \<in> set L'" and x: "x \<in> set (nodes k)" for k x
  proof -
    have "x \<in> set (all_nodes L')" using k x by (auto simp: all_nodes_def)
    with notin have "x \<noteq> a" by auto
    then have eq: "h' x = h x" by (rule same)
    have "\<exists>k'. k' \<in> set (pre @ l # post) \<and> x \<in> set (nodes k') \<and> level_price k' = level_price k"
    proof (cases "k \<in> set pre \<or> k \<in> set post")
      case True
      with x show ?thesis by (intro exI [of _ k]) auto
    next
      case False
      with L' k have "k = l\<lparr> nodes := remove1 a (nodes l) \<rparr>" by auto
      with x sub show ?thesis by (intro exI [of _ l]) auto
    qed
    then obtain k' where "k' \<in> set (pre @ l # post)" "x \<in> set (nodes k')"
      "level_price k' = level_price k" by blast
    with pt [of k' x] eq show ?thesis by simp
  qed
  with dist' show "rests_ok n sd h' L'" unfolding rests_ok_iff by blast
qed

lemma rests_ok_insert:
  assumes ok: "rests_ok n sd h (pre @ post)" and fresh: "a \<notin> set (all_nodes (pre @ post))"
    and new: "h' a = Some ord'" "onList ord'" "side ord' = sd" "instrument ord' = n" "price ord' = p"
    and same: "\<And>x. x \<noteq> a \<Longrightarrow> h' x = h x"
    and L': "L' = pre @ \<lparr> level_price = p, nodes = [a] \<rparr> # post
             \<or> (\<exists>l post'. post = l # post' \<and> level_price l = p
                   \<and> L' = pre @ l\<lparr> nodes := nodes l @ [a] \<rparr> # post')"
  shows "rests_ok n sd h' L'"
proof -
  from ok have dist: "distinct (all_nodes pre @ all_nodes post)"
    and pt: "\<And>k x. k \<in> set (pre @ post) \<Longrightarrow> x \<in> set (nodes k) \<Longrightarrow>
          \<exists>ord. h x = Some ord \<and> onList ord \<and> side ord = sd \<and> instrument ord = n
                \<and> price ord = level_price k"
    unfolding rests_ok_iff by auto
  have dist': "distinct (all_nodes L')"
    using L' dist fresh by auto
  have "\<exists>ord. h' x = Some ord \<and> onList ord \<and> side ord = sd \<and> instrument ord = n
                \<and> price ord = level_price k"
    if k: "k \<in> set L'" and x: "x \<in> set (nodes k)" for k x
  proof (cases "x = a")
    case True
    have "level_price k = p"
    proof -
      have "\<not> (\<exists>k'. k' \<in> set (pre @ post) \<and> a \<in> set (nodes k'))"
        using fresh by (auto simp: all_nodes_def)
      with L' k x True show ?thesis by auto
    qed
    with True new show ?thesis by simp
  next
    case False
    then have eq: "h' x = h x" by (rule same)
    have "\<exists>k'. k' \<in> set (pre @ post) \<and> x \<in> set (nodes k') \<and> level_price k' = level_price k"
    proof (cases "k \<in> set (pre @ post)")
      case True
      with x show ?thesis by (intro exI [of _ k]) auto
    next
      case out: False
      with L' k x False obtain l post' where "post = l # post'"
        "k = l\<lparr> nodes := nodes l @ [a] \<rparr>" by auto
      with x False show ?thesis by (intro exI [of _ l]) auto
    qed
    then obtain k' where "k' \<in> set (pre @ post)" "x \<in> set (nodes k')"
      "level_price k' = level_price k" by blast
    with pt [of k' x] eq show ?thesis by simp
  qed
  with dist' show ?thesis unfolding rests_ok_iff by blast
qed

lemma rests_ok_elsewhere:
  assumes "rests_ok n sd h L" and "a \<notin> set (all_nodes L)"
    and "\<And>x. x \<noteq> a \<Longrightarrow> h' x = h x"
  shows "rests_ok n sd h' L"
proof (rule rests_ok_cong [OF assms(1)])
  fix x assume "x \<in> set (all_nodes L)"
  with assms(2) have "x \<noteq> a" by auto
  then show "h' x = h x" by (rule assms(3))
qed

lemma book_inv_disjoint:
  assumes "book_inv n st"
  shows "set (all_nodes (bids st)) \<inter> set (all_nodes (asks st)) = {}"
proof -
  have False if b: "x \<in> set (all_nodes (bids st))" and a: "x \<in> set (all_nodes (asks st))" for x
  proof -
    from assms b obtain ord where "heap st x = Some ord" "side ord = BUY"
      unfolding book_inv_def using rests_ok_node by blast
    moreover from assms a obtain ord' where "heap st x = Some ord'" "side ord' = SELL"
      unfolding book_inv_def using rests_ok_node by blast
    ultimately show False by simp
  qed
  then show ?thesis by blast
qed

lemma book_inv_node:
  assumes "book_inv n st" and "a \<in> ladder_nodes st"
  shows "\<exists>ord. heap st a = Some ord \<and> onList ord \<and> instrument ord = n"
  using assms rests_ok_node unfolding book_inv_def ladder_nodes_def by blast

lemma book_inv_same_place:
  assumes "book_inv n st" and "bids st' = bids st" and "asks st' = asks st"
    and "\<And>x ord. heap st x = Some ord \<Longrightarrow> \<exists>ord'. heap st' x = Some ord' \<and> onList ord' = onList ord
            \<and> side ord' = side ord \<and> instrument ord' = instrument ord \<and> price ord' = price ord"
  shows "book_inv n st'"
proof -
  have "rests_ok n BUY (heap st') (bids st)"
    by (rule rests_ok_same_place [of n BUY "heap st"]) (use assms(1) in \<open>simp add: book_inv_def\<close>, rule assms(4))
  moreover have "rests_ok n SELL (heap st') (asks st)"
    by (rule rests_ok_same_place [of n SELL "heap st"]) (use assms(1) in \<open>simp add: book_inv_def\<close>, rule assms(4))
  ultimately show ?thesis using assms(2,3) by (simp add: book_inv_def)
qed

lemma book_inv_emit: "book_inv n (emit es st) = book_inv n st"
  by (simp add: book_inv_def emit_def)

lemma book_inv_off_ladder:
  assumes "book_inv n st" and "a \<notin> ladder_nodes st"
  shows "book_inv n (st\<lparr> heap := (heap st)(a \<mapsto> ord') \<rparr>)"
proof -
  have "rests_ok n BUY ((heap st)(a \<mapsto> ord')) (bids st)"
    by (rule rests_ok_elsewhere [of n BUY "heap st" _ a])
       (use assms in \<open>simp_all add: book_inv_def ladder_nodes_def\<close>)
  moreover have "rests_ok n SELL ((heap st)(a \<mapsto> ord')) (asks st)"
    by (rule rests_ok_elsewhere [of n SELL "heap st" _ a])
       (use assms in \<open>simp_all add: book_inv_def ladder_nodes_def\<close>)
  ultimately show ?thesis by (simp add: book_inv_def)
qed

lemma fill_at_book_inv:
  assumes "fill_at a q p st = Done u st'" and "book_inv n st"
  shows "book_inv n st'"
proof -
  from fill_at_Done [OF assms(1)] obtain ord ord' where ha: "heap st a = Some ord"
    and f: "fill q p ord = Some ord'" and st': "st' = st\<lparr> heap := (heap st)(a \<mapsto> ord') \<rparr>"
    by blast
  from fill_Some [OF f] have "onList ord' = onList ord" "side ord' = side ord"
    "instrument ord' = instrument ord" "price ord' = price ord" by simp_all
  with ha show ?thesis
    unfolding st' by (intro book_inv_same_place [OF assms(2)]) auto
qed

lemma side_removeOrder_book_inv:
  assumes r: "side_removeOrder sd a st = Done u st'" and inv: "book_inv n st"
  shows "book_inv n st'" and "a \<notin> ladder_nodes st'"
proof -
  from side_removeOrder_Done [OF r] obtain ord pre l post where
    ha: "heap st a = Some ord"
    and h': "heap st' = (heap st)(a \<mapsto> ord\<lparr> onList := False \<rparr>)"
    and lad: "ladder sd st = pre @ l # post" and mem: "a \<in> set (nodes l)"
    and lad': "ladder sd st' = pre @ post \<or> ladder sd st' = pre @ l\<lparr> nodes := remove1 a (nodes l) \<rparr> # post"
    and oth: "sd = BUY \<longrightarrow> asks st' = asks st" "sd = SELL \<longrightarrow> bids st' = bids st"
    by blast
  have same: "\<And>x. x \<noteq> a \<Longrightarrow> heap st' x = heap st x" using h' by simp
  have ok: "rests_ok n sd (heap st) (pre @ l # post)"
    using inv lad by (cases sd) (auto simp: book_inv_def ladder_def)
  have this_side: "rests_ok n sd (heap st') (ladder sd st')" "a \<notin> set (all_nodes (ladder sd st'))"
    using rests_ok_remove [OF ok mem lad' same] by simp_all
  have a_in: "a \<in> set (all_nodes (ladder sd st))" using lad mem by simp
  have dis: "set (all_nodes (bids st)) \<inter> set (all_nodes (asks st)) = {}"
    using inv by (rule book_inv_disjoint)
  have "book_inv n st' \<and> a \<notin> ladder_nodes st'"
  proof (cases sd)
    case BUY
    with a_in dis have na: "a \<notin> set (all_nodes (asks st))" by (auto simp: ladder_def)
    have other: "rests_ok n SELL (heap st') (asks st)"
      by (rule rests_ok_elsewhere [of n SELL "heap st" _ a]) (use inv na same in \<open>simp_all add: book_inv_def\<close>)
    from this_side BUY have b: "rests_ok n BUY (heap st') (bids st')" "a \<notin> set (all_nodes (bids st'))"
      by (simp_all add: ladder_def)
    from oth BUY have "asks st' = asks st" by simp
    with b other na show ?thesis
      by (simp add: book_inv_def ladder_nodes_def)
  next
    case SELL
    with a_in dis have na: "a \<notin> set (all_nodes (bids st))" by (auto simp: ladder_def)
    have other: "rests_ok n BUY (heap st') (bids st)"
      by (rule rests_ok_elsewhere [of n BUY "heap st" _ a]) (use inv na same in \<open>simp_all add: book_inv_def\<close>)
    from this_side SELL have b: "rests_ok n SELL (heap st') (asks st')" "a \<notin> set (all_nodes (asks st'))"
      by (simp_all add: ladder_def)
    from oth SELL have "bids st' = bids st" by simp
    with b other na show ?thesis
      by (simp add: book_inv_def ladder_nodes_def)
  qed
  then show "book_inv n st'" and "a \<notin> ladder_nodes st'" by simp_all
qed

lemma side_insertOrder_book_inv:
  assumes i: "side_insertOrder sd a st = Done u st'" and inv: "book_inv n st"
    and ha: "heap st a = Some ord" and sd: "side ord = sd" and n: "instrument ord = n"
  shows "book_inv n st'"
proof -
  from side_insertOrder_Done [OF i] ha obtain pre post where
    off: "\<not> onList ord"
    and h': "heap st' = (heap st)(a \<mapsto> ord\<lparr> onList := True \<rparr>)"
    and lad: "ladder sd st = pre @ post"
    and lad': "ladder sd st' = pre @ \<lparr> level_price = price ord, nodes = [a] \<rparr> # post
                \<or> (\<exists>l post'. post = l # post' \<and> level_price l = price ord
                      \<and> ladder sd st' = pre @ l\<lparr> nodes := nodes l @ [a] \<rparr> # post')"
    and oth: "sd = BUY \<longrightarrow> asks st' = asks st" "sd = SELL \<longrightarrow> bids st' = bids st"
    by auto
  have same: "\<And>x. x \<noteq> a \<Longrightarrow> heap st' x = heap st x" using h' by simp
  have fresh: "a \<notin> ladder_nodes st"
    using book_inv_node [OF inv, of a] ha off by auto
  have ok: "rests_ok n sd (heap st) (pre @ post)"
    using inv lad by (cases sd) (auto simp: book_inv_def ladder_def)
  have fr: "a \<notin> set (all_nodes (pre @ post))"
    using fresh lad by (cases sd) (auto simp: ladder_nodes_def ladder_def)
  have this_side: "rests_ok n sd (heap st') (ladder sd st')"
    by (rule rests_ok_insert [OF ok fr _ _ _ _ _ same lad', of "ord\<lparr> onList := True \<rparr>"])
       (use h' sd n in simp_all)
  show ?thesis
  proof (cases sd)
    case BUY
    have "rests_ok n SELL (heap st') (asks st)"
      by (rule rests_ok_elsewhere [of n SELL "heap st" _ a]) (use inv fresh same in \<open>simp_all add: book_inv_def ladder_nodes_def\<close>)
    moreover from this_side BUY have "rests_ok n BUY (heap st') (bids st')" by (simp add: ladder_def)
    moreover from oth BUY have "asks st' = asks st" by simp
    ultimately show ?thesis by (simp add: book_inv_def)
  next
    case SELL
    have "rests_ok n BUY (heap st') (bids st)"
      by (rule rests_ok_elsewhere [of n BUY "heap st" _ a]) (use inv fresh same in \<open>simp_all add: book_inv_def ladder_nodes_def\<close>)
    moreover from this_side SELL have "rests_ok n SELL (heap st') (asks st')" by (simp add: ladder_def)
    moreover from oth SELL have "bids st' = bids st" by simp
    ultimately show ?thesis by (simp add: book_inv_def)
  qed
qed

lemma remove_if_done_book_inv:
  assumes "remove_if_done sd a st = Done u st'" and "book_inv n st"
  shows "book_inv n st'"
proof -
  from remove_if_done_Done [OF assms(1)] obtain ord where "heap st a = Some ord" and
    c: "if remaining ord = 0 then side_removeOrder sd a st = Done () st' else st' = st" by auto
  show ?thesis
  proof (cases "remaining ord = 0")
    case True
    with c have "side_removeOrder sd a st = Done () st'" by simp
    then show ?thesis using assms(2) by (rule side_removeOrder_book_inv(1))
  next
    case False
    with c assms(2) show ?thesis by simp
  qed
qed

lemma matchIteration_book_inv:
  assumes "matchIteration sd st = Done c st'" and "book_inv n st"
  shows "book_inv n st'"
proof (cases c)
  case False
  with assms(1) have "matchIteration sd st = Done False st'" by simp
  then have "st' = st" by (rule matchIteration_False)
  with assms(2) show ?thesis by simp
next
  case True
  with assms have "matchIteration sd st = Done True st'" by simp
  then obtain b a bo ao st1 st2 st3 st4 where
      fb: "PriceLevels_front (heap st) (bids st) = Some b"
    and fa: "PriceLevels_front (heap st) (asks st) = Some a"
    and hb: "heap st b = Some bo" and ha: "heap st a = Some ao" and le: "price ao \<le> price bo"
    and f1: "fill_at b (min (remaining bo) (remaining ao)) (min (price bo) (price ao)) st = Done () st1"
    and f2: "fill_at a (min (remaining bo) (remaining ao)) (min (price bo) (price ao)) st1 = Done () st2"
    and r1: "remove_if_done BUY b st2 = Done () st3"
    and r2: "remove_if_done SELL a st3 = Done () st4"
    and st': "st' = emit (order_event b st4 @ order_event a st4 @
             [OnTrade \<lparr> trade_price = min (price bo) (price ao),
                        trade_quantity = min (remaining bo) (remaining ao),
                        aggressor = (if sd = BUY then b else a),
                        opposite = (if sd = BUY then a else b) \<rparr>]) st4"
    by (rule matchIteration_True)
  have i1: "book_inv n st1" using f1 assms(2) by (rule fill_at_book_inv)
  have i2: "book_inv n st2" using f2 i1 by (rule fill_at_book_inv)
  have i3: "book_inv n st3" using r1 i2 by (rule remove_if_done_book_inv)
  have i4: "book_inv n st4" using r2 i3 by (rule remove_if_done_book_inv)
  then show ?thesis unfolding st' by (simp add: book_inv_emit)
qed

lemma matchLoop_book_inv:
  assumes "matchLoop sd st = Some (Done u st')" and "book_inv n st"
  shows "book_inv n st'"
  by (rule matchLoop_Done [OF assms(1), of "book_inv n", OF assms(2)])
     (rule matchIteration_book_inv)

lemma book_inv_cancel:
  assumes "book_inv n st" and "heap st a = Some ord"
  shows "book_inv n (st\<lparr> heap := (heap st)(a \<mapsto> cancel ord) \<rparr>)"
  by (rule book_inv_same_place [OF assms(1)]) (use assms(2) in \<open>auto simp: cancel_def\<close>)

lemma cancelResidual_book_inv:
  assumes "cancelResidual sd st = Done u st'" and "book_inv n st"
  shows "book_inv n st'"
proof -
  from cancelResidual_Done [OF assms(1)] show ?thesis
  proof
    assume "st' = st" with assms(2) show ?thesis by simp
  next
    assume "\<exists>a ord st2. PriceLevels_front (heap st) (ladder sd st) = Some a \<and> heap st a = Some ord
               \<and> isMarket ord
               \<and> side_removeOrder sd a (st\<lparr> heap := (heap st)(a \<mapsto> cancel ord) \<rparr>) = Done () st2
               \<and> st' = emit (order_event a st2) st2"
    then obtain a ord st2 where ha: "heap st a = Some ord"
      and r: "side_removeOrder sd a (st\<lparr> heap := (heap st)(a \<mapsto> cancel ord) \<rparr>) = Done () st2"
      and st': "st' = emit (order_event a st2) st2" by blast
    have "book_inv n (st\<lparr> heap := (heap st)(a \<mapsto> cancel ord) \<rparr>)"
      using assms(2) ha by (rule book_inv_cancel)
    with r have "book_inv n st2" by (rule side_removeOrder_book_inv(1))
    then show ?thesis unfolding st' by (simp add: book_inv_emit)
  qed
qed

lemma matchOrders_book_inv:
  assumes "matchOrders sd st = Some (Done u st')" and "book_inv n st"
  shows "book_inv n st'"
proof -
  from assms(1) obtain st1 where loop: "matchLoop sd st = Some (Done () st1)"
    and res: "cancelResidual sd st1 = Done () st'"
    by (rule matchOrders_Done)
  from loop assms(2) have "book_inv n st1" by (rule matchLoop_book_inv)
  with res show ?thesis by (rule cancelResidual_book_inv)
qed

section \<open>No exception from the front of a sound ladder\<close>

lemma lower_bound_front:
  assumes "level_price l = p"
  shows "lower_bound asc (l # ls) p = 0"
  using assms by (simp add: lower_bound_def cmpFn_def)

lemma PriceLevels_removeOrder_front:
  assumes "h a = Some ord" and "onList ord" and "price ord = level_price l" and "a \<in> set (nodes l)"
  shows "\<exists>L'. PriceLevels_removeOrder asc a (h, l # ls) = Done () (h(a \<mapsto> ord\<lparr> onList := False \<rparr>), L')"
  using assms lower_bound_front [of l "price ord" asc ls]
  by (simp add: PriceLevels_removeOrder_def remove_def Let_def)

lemma side_removeOrder_front:
  assumes inv: "book_inv n st" and lad: "ladder sd st = l # ls" and hd: "nodes l = a # as"
  shows "\<exists>st'. side_removeOrder sd a st = Done () st'"
proof -
  have ok: "rests_ok n sd (heap st) (l # ls)"
    using inv lad by (cases sd) (auto simp: book_inv_def ladder_def)
  then obtain ord where ha: "heap st a = Some ord" and on: "onList ord" and pr: "price ord = level_price l"
    unfolding rests_ok_iff using hd by fastforce
  have mem: "a \<in> set (nodes l)" using hd by simp
  from PriceLevels_removeOrder_front [where h = "heap st" and a = a and ord = ord and l = l
      and asc = "ascending_of sd" and ls = ls] ha on pr mem
  show ?thesis by (auto simp: side_removeOrder_def lad)
qed

lemma remove_if_done_front:
  assumes inv: "book_inv n st" and lad: "ladder sd st = l # ls" and hd: "nodes l = a # as"
  shows "\<exists>st'. remove_if_done sd a st = Done () st'"
proof -
  have "a \<in> ladder_nodes st"
    using lad hd by (cases sd) (auto simp: ladder_nodes_def ladder_def)
  with inv obtain ord where ha: "heap st a = Some ord" using book_inv_node by blast
  from side_removeOrder_front [OF inv lad hd] ha show ?thesis
    by (auto simp: remove_if_done_def)
qed

lemma fill_at_ladders:
  assumes "fill_at a q p st = Done u st'"
  shows "bids st' = bids st" and "asks st' = asks st"
  using fill_at_Done [OF assms] by auto

lemma fill_at_outcome: "fill_at a q p st \<noteq> Throw e s"
  by (simp add: fill_at_def split: option.splits)

lemma front_shape:
  assumes "PriceLevels_front h L = Some a"
  obtains l ls as where "L = l # ls" "nodes l = a # as"
  using front_in_nodes(3) [OF assms] by blast

lemma matchIteration_Throw:
  assumes "matchIteration sd st = Throw e s"
  obtains b a bo ao st1 st2 where
    "PriceLevels_front (heap st) (bids st) = Some b"
    "PriceLevels_front (heap st) (asks st) = Some a"
    "heap st b = Some bo" "heap st a = Some ao"
    "fill_at b (min (remaining bo) (remaining ao)) (min (price bo) (price ao)) st = Done () st1"
    "fill_at a (min (remaining bo) (remaining ao)) (min (price bo) (price ao)) st1 = Done () st2"
    "remove_if_done BUY b st2 = Throw e s
     \<or> (\<exists>st3. remove_if_done BUY b st2 = Done () st3 \<and> remove_if_done SELL a st3 = Throw e s)"
  using assms
  by (auto simp: matchIteration_def Let_def fill_at_outcome
           split: if_splits option.splits outcome.splits)

lemma remove_if_done_other_side:
  assumes "remove_if_done sd a st = Done u st'"
  shows "sd = BUY \<longrightarrow> asks st' = asks st" and "sd = SELL \<longrightarrow> bids st' = bids st"
proof -
  from remove_if_done_Done [OF assms] obtain ord where "heap st a = Some ord" and
    c: "if remaining ord = 0 then side_removeOrder sd a st = Done () st' else st' = st" by auto
  have "(sd = BUY \<longrightarrow> asks st' = asks st) \<and> (sd = SELL \<longrightarrow> bids st' = bids st)"
  proof (cases "remaining ord = 0")
    case True
    with c have "side_removeOrder sd a st = Done () st'" by simp
    from side_removeOrder_Done [OF this] show ?thesis by auto
  next
    case False with c show ?thesis by simp
  qed
  then show "sd = BUY \<longrightarrow> asks st' = asks st" and "sd = SELL \<longrightarrow> bids st' = bids st" by simp_all
qed

lemma matchIteration_no_throw:
  assumes inv: "book_inv n st"
  shows "matchIteration sd st \<noteq> Throw e s"
proof
  assume t: "matchIteration sd st = Throw e s"
  then obtain b a bo ao st1 st2 where
      fb: "PriceLevels_front (heap st) (bids st) = Some b"
    and fa: "PriceLevels_front (heap st) (asks st) = Some a"
    and hb: "heap st b = Some bo" and ha: "heap st a = Some ao"
    and f1: "fill_at b (min (remaining bo) (remaining ao)) (min (price bo) (price ao)) st = Done () st1"
    and f2: "fill_at a (min (remaining bo) (remaining ao)) (min (price bo) (price ao)) st1 = Done () st2"
    and thr: "remove_if_done BUY b st2 = Throw e s
     \<or> (\<exists>st3. remove_if_done BUY b st2 = Done () st3 \<and> remove_if_done SELL a st3 = Throw e s)"
    by (rule matchIteration_Throw)
  have inv1: "book_inv n st1" using f1 inv by (rule fill_at_book_inv)
  have inv2: "book_inv n st2" using f2 inv1 by (rule fill_at_book_inv)
  have lad2: "bids st2 = bids st" "asks st2 = asks st"
    using fill_at_ladders [OF f1] fill_at_ladders [OF f2] by simp_all
  from fb obtain lb lsb asb where sb: "bids st = lb # lsb" "nodes lb = b # asb" by (rule front_shape)
  from fa obtain la lsa asa where sa: "asks st = la # lsa" "nodes la = a # asa" by (rule front_shape)
  have "ladder BUY st2 = lb # lsb" using sb lad2 by (simp add: ladder_def)
  from remove_if_done_front [OF inv2 this sb(2)]
  obtain st3 where r1: "remove_if_done BUY b st2 = Done () st3" by blast
  have inv3: "book_inv n st3" using r1 inv2 by (rule remove_if_done_book_inv)
  have "asks st3 = asks st2" using remove_if_done_other_side(1) [OF r1] by simp
  then have "ladder SELL st3 = la # lsa" using sa lad2 by (simp add: ladder_def)
  from remove_if_done_front [OF inv3 this sa(2)]
  obtain st4 where r2: "remove_if_done SELL a st3 = Done () st4" by blast
  from thr r1 r2 show False by auto
qed

lemma cancelResidual_no_throw:
  assumes inv: "book_inv n st"
  shows "cancelResidual sd st \<noteq> Throw e s"
proof
  assume t: "cancelResidual sd st = Throw e s"
  then obtain a ord where fr: "PriceLevels_front (heap st) (ladder sd st) = Some a"
    and ha: "heap st a = Some ord" and mk: "isMarket ord"
    by (auto simp: cancelResidual_def Let_def split: if_splits option.splits)
  let ?s1 = "st\<lparr> heap := (heap st)(a \<mapsto> cancel ord) \<rparr>"
  have inv1: "book_inv n ?s1" using inv ha by (rule book_inv_cancel)
  from fr obtain l ls as where sh: "ladder sd st = l # ls" "nodes l = a # as" by (rule front_shape)
  have "ladder sd ?s1 = ladder sd st" by (simp add: ladder_def)
  with sh have "ladder sd ?s1 = l # ls" by simp
  from side_removeOrder_front [OF inv1 this sh(2)] obtain st2 where
    "side_removeOrder sd a ?s1 = Done () st2" by blast
  with t fr ha mk sh show False
    by (simp add: cancelResidual_def Let_def)
qed

lemma matchLoop_Throw:
  assumes "matchLoop sd st = Some (Throw e s)" and "I st"
    and "\<And>s s'. I s \<Longrightarrow> matchIteration sd s = Done True s' \<Longrightarrow> I s'"
  shows "\<exists>s0. I s0 \<and> matchIteration sd s0 = Throw e s"
  using matchLoop_outcome [OF assms(1), of I, OF assms(2,3)] by auto

lemma matchLoop_no_throw:
  assumes "book_inv n st"
  shows "matchLoop sd st \<noteq> Some (Throw e s)"
proof
  assume t: "matchLoop sd st = Some (Throw e s)"
  have "\<exists>s0. book_inv n s0 \<and> matchIteration sd s0 = Throw e s"
    by (rule matchLoop_Throw [OF t, of "book_inv n", OF assms]) (rule matchIteration_book_inv)
  then show False using matchIteration_no_throw by blast
qed

lemma matchOrders_no_throw:
  assumes "book_inv n st"
  shows "matchOrders sd st \<noteq> Some (Throw e s)"
proof
  assume t: "matchOrders sd st = Some (Throw e s)"
  show False
  proof (cases "matchLoop sd st")
    case None
    with t show False by (simp add: matchOrders_def)
  next
    case (Some r)
    show False
    proof (cases r)
      case (Done u st1)
      with Some have "book_inv n st1" using matchLoop_book_inv assms by (cases u) blast
      with t Some Done show False using cancelResidual_no_throw by (simp add: matchOrders_def)
    next
      case (Throw e' s')
      with Some assms show False using matchLoop_no_throw by blast
    next
      case (Fault f)
      with t Some show False by (simp add: matchOrders_def)
    qed
  qed
qed

section \<open>Termination of the matching loop\<close>

lemma remove_if_done_count:
  assumes "remove_if_done sd a st = Done u st'"
  shows "resting_count st' \<le> resting_count st"
    and "\<And>ord. heap st a = Some ord \<Longrightarrow> remaining ord = 0 \<Longrightarrow> resting_count st' < resting_count st"
    and "\<And>x. x \<noteq> a \<Longrightarrow> heap st' x = heap st x"
proof -
  from remove_if_done_Done [OF assms] obtain ord where ha: "heap st a = Some ord" and
    c: "if remaining ord = 0 then side_removeOrder sd a st = Done () st' else st' = st" by auto
  show "resting_count st' \<le> resting_count st"
  proof (cases "remaining ord = 0")
    case True
    with c have "side_removeOrder sd a st = Done () st'" by simp
    from side_removeOrder_nodes(3) [OF this] show ?thesis by simp
  next
    case False with c show ?thesis by simp
  qed
  show "resting_count st' < resting_count st" if "heap st a = Some ord'" "remaining ord' = 0" for ord'
  proof -
    from that ha have "remaining ord = 0" by simp
    with c have "side_removeOrder sd a st = Done () st'" by simp
    then show ?thesis by (rule side_removeOrder_nodes(3))
  qed
  show "heap st' x = heap st x" if "x \<noteq> a" for x
    using remove_if_done_frame(1) [OF assms] that by (simp add: frame_def)
qed

lemma matchIteration_decreases:
  assumes it: "matchIteration sd st = Done True st'" and inv: "book_inv n st"
  shows "resting_count st' < resting_count st"
proof -
  from it obtain b a bo ao st1 st2 st3 st4 where
      fb: "PriceLevels_front (heap st) (bids st) = Some b"
    and fa: "PriceLevels_front (heap st) (asks st) = Some a"
    and hb: "heap st b = Some bo" and ha: "heap st a = Some ao" and le: "price ao \<le> price bo"
    and f1: "fill_at b (min (remaining bo) (remaining ao)) (min (price bo) (price ao)) st = Done () st1"
    and f2: "fill_at a (min (remaining bo) (remaining ao)) (min (price bo) (price ao)) st1 = Done () st2"
    and r1: "remove_if_done BUY b st2 = Done () st3"
    and r2: "remove_if_done SELL a st3 = Done () st4"
    and st': "st' = emit (order_event b st4 @ order_event a st4 @
             [OnTrade \<lparr> trade_price = min (price bo) (price ao),
                        trade_quantity = min (remaining bo) (remaining ao),
                        aggressor = (if sd = BUY then b else a),
                        opposite = (if sd = BUY then a else b) \<rparr>]) st4"
    by (rule matchIteration_True)
  let ?q = "min (remaining bo) (remaining ao)"
  have ne: "b \<noteq> a"
    using front_in_nodes(1) [OF fb] front_in_nodes(1) [OF fa] book_inv_disjoint [OF inv] by auto
  from fill_at_Done [OF f1] hb obtain bo' where fb': "fill ?q (min (price bo) (price ao)) bo = Some bo'"
    and s1: "st1 = st\<lparr> heap := (heap st)(b \<mapsto> bo') \<rparr>" by auto
  from fill_at_Done [OF f2] ha ne s1 obtain ao' where fa': "fill ?q (min (price bo) (price ao)) ao = Some ao'"
    and s2: "st2 = st1\<lparr> heap := (heap st1)(a \<mapsto> ao') \<rparr>" by auto
  have rb: "remaining bo' = remaining bo - ?q" using fill_Some [OF fb'] by simp
  have ra: "remaining ao' = remaining ao - ?q" using fill_Some [OF fa'] by simp
  have h2b: "heap st2 b = Some bo'" using s1 s2 ne by simp
  have h2a: "heap st2 a = Some ao'" using s2 by simp
  have c2: "resting_count st2 = resting_count st" using s1 s2 by (simp add: resting_count_def)
  have h3a: "heap st3 a = Some ao'"
    using remove_if_done_count(3) [OF r1, of a] ne h2a by simp
  have le3: "resting_count st3 \<le> resting_count st2" using r1 by (rule remove_if_done_count(1))
  have le4: "resting_count st4 \<le> resting_count st3" using r2 by (rule remove_if_done_count(1))
  have "resting_count st4 < resting_count st2"
  proof (cases "remaining bo \<le> remaining ao")
    case True
    then have "remaining bo' = 0" using rb by simp
    with remove_if_done_count(2) [OF r1 h2b] le4 show ?thesis by simp
  next
    case False
    then have "remaining ao' = 0" using ra by simp
    with remove_if_done_count(2) [OF r2 h3a] le3 show ?thesis by simp
  qed
  then show ?thesis unfolding st' using c2 by (simp add: emit_def resting_count_def)
qed

lemma matchLoop_terminates:
  assumes "book_inv n st"
  shows "\<exists>r. matchLoop sd st = Some r"
  using assms
proof (induction "resting_count st" arbitrary: st rule: less_induct)
  case less
  show ?case
  proof (cases "matchIteration sd st")
    case (Done again st')
    show ?thesis
    proof (cases again)
      case True
      with Done have it: "matchIteration sd st = Done True st'" by simp
      have "resting_count st' < resting_count st"
        using it less.prems by (rule matchIteration_decreases)
      moreover have "book_inv n st'"
        using it less.prems by (rule matchIteration_book_inv)
      ultimately have "\<exists>r. matchLoop sd st' = Some r" by (rule less.hyps)
      then show ?thesis
        by (subst matchLoop.simps) (simp add: it)
    next
      case False
      with Done show ?thesis by (subst matchLoop.simps) simp
    qed
  next
    case (Throw e s)
    then show ?thesis by (subst matchLoop.simps) simp
  next
    case (Fault f)
    then show ?thesis by (subst matchLoop.simps) simp
  qed
qed

lemma matchOrders_terminates:
  assumes "book_inv n st"
  shows "\<exists>r. matchOrders sd st = Some r"
proof -
  from matchLoop_terminates [OF assms] obtain r where "matchLoop sd st = Some r" by blast
  then show ?thesis by (cases r) (simp_all add: matchOrders_def)
qed

section \<open>The ladder invariant through the operations of a book\<close>

lemma OrderBook_insertOrder_book_inv:
  assumes inv: "book_inv n st" and ha: "heap st a = Some ord" and n: "instrument ord = n"
  shows "\<exists>r. OrderBook_insertOrder (Some a) st = Some r"
    and "\<And>e s. OrderBook_insertOrder (Some a) st \<noteq> Some (Throw e s)"
    and "\<And>u st'. OrderBook_insertOrder (Some a) st = Some (Done u st') \<Longrightarrow> book_inv n st'"
proof -
  have "(\<exists>r. OrderBook_insertOrder (Some a) st = Some r)
      \<and> (\<forall>e s. OrderBook_insertOrder (Some a) st \<noteq> Some (Throw e s))
      \<and> (\<forall>u st'. OrderBook_insertOrder (Some a) st = Some (Done u st') \<longrightarrow> book_inv n st')"
  proof (cases "remaining ord \<le> 0")
    case True
    with ha inv show ?thesis by (simp add: OrderBook_insertOrder_def)
  next
    case False
    show ?thesis
    proof (cases "side_insertOrder (side ord) a st")
      case (Done u st1)
      have "book_inv n st1"
        using Done inv ha _ n by (rule side_insertOrder_book_inv) simp
      then have inv1: "book_inv n (emit (order_event a st1) st1)" by (simp add: book_inv_emit)
      have eq: "OrderBook_insertOrder (Some a) st = matchOrders (side ord) (emit (order_event a st1) st1)"
        using ha False Done by (simp add: OrderBook_insertOrder_def)
      show ?thesis
        unfolding eq
        using matchOrders_terminates [OF inv1] matchOrders_no_throw [OF inv1]
          matchOrders_book_inv [OF _ inv1] by blast
    next
      case (Throw e s)
      then have False
        by (auto simp: side_insertOrder_def PriceLevels_insertOrder_def pushback_def Let_def
                 split: option.splits if_splits outcome.splits)
      then show ?thesis ..
    next
      case (Fault f)
      with ha False show ?thesis by (simp add: OrderBook_insertOrder_def)
    qed
  qed
  then show "\<exists>r. OrderBook_insertOrder (Some a) st = Some r"
    and "\<And>e s. OrderBook_insertOrder (Some a) st \<noteq> Some (Throw e s)"
    and "\<And>u st'. OrderBook_insertOrder (Some a) st = Some (Done u st') \<Longrightarrow> book_inv n st'"
    by blast+
qed

lemma quote_side_book_inv:
  assumes inv: "book_inv n st" and ha: "heap st a = Some ord"
    and sd: "side ord = sd" and n: "instrument ord = n"
  shows "\<exists>r. quote_side sd (Some a) p q st = Some r"
    and "\<And>u st'. quote_side sd (Some a) p q st = Some (Done u st') \<Longrightarrow> book_inv n st'"
proof -
  have "(\<exists>r. quote_side sd (Some a) p q st = Some r)
      \<and> (\<forall>u st'. quote_side sd (Some a) p q st = Some (Done u st') \<longrightarrow> book_inv n st')"
  proof (cases "q = 0")
    case True
    with inv show ?thesis by (simp add: quote_side_def)
  next
    case False
    let ?s0 = "st\<lparr> heap := (heap st)(a \<mapsto> rearm p q ord) \<rparr>"
    show ?thesis
    proof (cases "side_insertOrder sd a ?s0")
      case (Done u st1)
      from side_insertOrder_Done [OF Done] have "\<not> onList ord" by (auto simp: rearm_def)
      with book_inv_node [OF inv, of a] ha have "a \<notin> ladder_nodes st" by auto
      with inv have inv0: "book_inv n ?s0" by (rule book_inv_off_ladder)
      have inv1: "book_inv n st1"
        by (rule side_insertOrder_book_inv [OF Done inv0, of "rearm p q ord"])
           (use sd n in \<open>simp_all add: rearm_def\<close>)
      have eq: "quote_side sd (Some a) p q st = matchOrders sd st1"
        using ha False Done by (simp add: quote_side_def)
      show ?thesis
        unfolding eq
        using matchOrders_terminates [OF inv1] matchOrders_book_inv [OF _ inv1] by blast
    next
      case (Throw e s)
      with ha False show ?thesis by (simp add: quote_side_def)
    next
      case (Fault f)
      with ha False show ?thesis by (simp add: quote_side_def)
    qed
  qed
  then show "\<exists>r. quote_side sd (Some a) p q st = Some r"
    and "\<And>u st'. quote_side sd (Some a) p q st = Some (Done u st') \<Longrightarrow> book_inv n st'"
    by blast+
qed

lemma remove_if_onList_book_inv:
  assumes "remove_if_onList sd (Some a) st = Done u st'" and inv: "book_inv n st"
  shows "book_inv n st'" and "a \<notin> ladder_nodes st'"
proof -
  from remove_if_onList_Done [OF assms(1)] obtain ord where ha: "heap st a = Some ord" and
    c: "if onList ord then side_removeOrder sd a st = Done () st' else st' = st" by auto
  have "book_inv n st' \<and> a \<notin> ladder_nodes st'"
  proof (cases "onList ord")
    case True
    with c have "side_removeOrder sd a st = Done () st'" by simp
    from side_removeOrder_book_inv [OF this inv] show ?thesis by simp
  next
    case False
    with book_inv_node [OF inv, of a] ha have "a \<notin> ladder_nodes st" by auto
    with False c inv show ?thesis by simp
  qed
  then show "book_inv n st'" and "a \<notin> ladder_nodes st'" by simp_all
qed

lemma OrderBook_cancelOrder_book_inv:
  assumes "OrderBook_cancelOrder (Some a) st = Done r st'" and inv: "book_inv n st"
  shows "book_inv n st'"
proof -
  from assms(1) obtain ord where ha: "heap st a = Some ord"
    by (auto simp: OrderBook_cancelOrder_def split: option.splits)
  let ?st1 = "st\<lparr> heap := (heap st)(a \<mapsto> cancel ord) \<rparr>"
  have inv1: "book_inv n ?st1" using inv ha by (rule book_inv_cancel)
  consider (same) "st' = st" | (plain) "st' = ?st1"
    | (removed) st2 where "side_removeOrder (side ord) a ?st1 = Done () st2"
        "st' = emit (order_event a st2) st2"
    using assms(1) ha
    by (auto simp: OrderBook_cancelOrder_def Let_def split: if_splits outcome.splits)
  then show ?thesis
  proof cases
    case same with inv show ?thesis by simp
  next
    case plain with inv1 show ?thesis by simp
  next
    case removed
    from side_removeOrder_book_inv(1) [OF removed(1) inv1] show ?thesis
      unfolding removed(2) by (simp add: book_inv_emit)
  qed
qed

section \<open>Fill accounting\<close>

lemma accounted_fill:
  assumes "fill q p ord = Some ord'" and "accounted ord" and "onList ord"
  shows "accounted ord'"
  using fill_Some [OF assms(1)] assms(2,3) by (simp add: accounted_def)

lemma accounted_off_list:
  assumes "accounted ord \<or> remaining ord = 0"
  shows "accounted (ord\<lparr> onList := False \<rparr>)"
  using assms by (auto simp: accounted_def)

lemma accounted_on_list:
  assumes "remaining ord + filled ord = quantity ord"
  shows "accounted (ord\<lparr> onList := b \<rparr>)"
  using assms by (simp add: accounted_def)

lemma heap_all_upd:
  assumes "\<And>x ord. x \<noteq> a \<Longrightarrow> h x = Some ord \<Longrightarrow> P ord" and "P ord'"
  shows "heap_all P (h(a \<mapsto> ord'))"
  using assms by (auto simp: heap_all_def)

lemma heap_allD: "heap_all P h \<Longrightarrow> h x = Some ord \<Longrightarrow> P ord"
  by (simp add: heap_all_def)

lemma fill_at_accounted:
  assumes f: "fill_at a q p st = Done u st'" and acc: "heap_all accounted (heap st)"
    and on: "\<And>ord. heap st a = Some ord \<Longrightarrow> onList ord"
  shows "heap_all accounted (heap st')"
    and "\<And>x ord. heap st x = Some ord \<Longrightarrow> onList ord \<Longrightarrow> \<exists>ord'. heap st' x = Some ord' \<and> onList ord'"
proof -
  from fill_at_Done [OF f] obtain ord ord' where ha: "heap st a = Some ord"
    and fl: "fill q p ord = Some ord'" and st': "st' = st\<lparr> heap := (heap st)(a \<mapsto> ord') \<rparr>"
    by blast
  have "accounted ord'"
    using fl heap_allD [OF acc ha] on [OF ha] by (rule accounted_fill)
  then show "heap_all accounted (heap st')"
    unfolding st' using acc by (auto intro!: heap_all_upd dest: heap_allD)
  have "onList ord'" using fill_Some [OF fl] on [OF ha] by simp
  then show "\<exists>ord'. heap st' x = Some ord' \<and> onList ord'" if "heap st x = Some ord2" "onList ord2" for x ord2
    unfolding st' using that by auto
qed

lemma side_removeOrder_accounted:
  assumes r: "side_removeOrder sd a st = Done u st'"
    and oth: "\<And>x ord. x \<noteq> a \<Longrightarrow> heap st x = Some ord \<Longrightarrow> accounted ord"
    and at: "\<And>ord. heap st a = Some ord \<Longrightarrow> accounted ord \<or> remaining ord = 0"
  shows "heap_all accounted (heap st')"
proof -
  from side_removeOrder_Done [OF r] obtain ord where ha: "heap st a = Some ord"
    and h': "heap st' = (heap st)(a \<mapsto> ord\<lparr> onList := False \<rparr>)" by blast
  show ?thesis
    unfolding h' by (rule heap_all_upd) (use oth at [OF ha] in \<open>auto intro: accounted_off_list\<close>)
qed

lemma side_removeOrder_accounted':
  assumes "side_removeOrder sd a st = Done u st'" and "heap_all accounted (heap st)"
  shows "heap_all accounted (heap st')"
  using assms(1) by (rule side_removeOrder_accounted) (use assms(2) in \<open>auto dest: heap_allD\<close>)

lemma remove_if_done_accounted:
  assumes "remove_if_done sd a st = Done u st'" and acc: "heap_all accounted (heap st)"
  shows "heap_all accounted (heap st')"
proof -
  from remove_if_done_Done [OF assms(1)] obtain ord where "heap st a = Some ord" and
    c: "if remaining ord = 0 then side_removeOrder sd a st = Done () st' else st' = st" by auto
  show ?thesis
  proof (cases "remaining ord = 0")
    case True
    with c have "side_removeOrder sd a st = Done () st'" by simp
    then show ?thesis using acc by (rule side_removeOrder_accounted')
  next
    case False with c acc show ?thesis by simp
  qed
qed

lemma matchIteration_accounted:
  assumes "matchIteration sd st = Done c st'" and acc: "heap_all accounted (heap st)"
  shows "heap_all accounted (heap st')"
proof (cases c)
  case False
  with assms(1) have "matchIteration sd st = Done False st'" by simp
  then have "st' = st" by (rule matchIteration_False)
  with acc show ?thesis by simp
next
  case True
  with assms have "matchIteration sd st = Done True st'" by simp
  then obtain b a bo ao st1 st2 st3 st4 where
      fb: "PriceLevels_front (heap st) (bids st) = Some b"
    and fa: "PriceLevels_front (heap st) (asks st) = Some a"
    and hb: "heap st b = Some bo" and ha: "heap st a = Some ao" and le: "price ao \<le> price bo"
    and f1: "fill_at b (min (remaining bo) (remaining ao)) (min (price bo) (price ao)) st = Done () st1"
    and f2: "fill_at a (min (remaining bo) (remaining ao)) (min (price bo) (price ao)) st1 = Done () st2"
    and r1: "remove_if_done BUY b st2 = Done () st3"
    and r2: "remove_if_done SELL a st3 = Done () st4"
    and st': "st' = emit (order_event b st4 @ order_event a st4 @
             [OnTrade \<lparr> trade_price = min (price bo) (price ao),
                        trade_quantity = min (remaining bo) (remaining ao),
                        aggressor = (if sd = BUY then b else a),
                        opposite = (if sd = BUY then a else b) \<rparr>]) st4"
    by (rule matchIteration_True)
  have onb: "onList bo" using front_in_nodes(2) [OF fb] hb by auto
  have ona: "onList ao" using front_in_nodes(2) [OF fa] ha by auto
  have a1: "heap_all accounted (heap st1)"
    using f1 acc by (rule fill_at_accounted(1)) (use hb onb in simp)
  have on1: "\<And>ord. heap st1 a = Some ord \<Longrightarrow> onList ord"
    using fill_at_accounted(2) [OF f1 acc _ ha ona] hb onb by auto
  have a2: "heap_all accounted (heap st2)"
    using f2 a1 on1 by (rule fill_at_accounted(1))
  have a3: "heap_all accounted (heap st3)" using r1 a2 by (rule remove_if_done_accounted)
  have a4: "heap_all accounted (heap st4)" using r2 a3 by (rule remove_if_done_accounted)
  then show ?thesis unfolding st' by (simp add: emit_def)
qed

lemma matchLoop_accounted:
  assumes "matchLoop sd st = Some (Done u st')" and "heap_all accounted (heap st)"
  shows "heap_all accounted (heap st')"
  by (rule matchLoop_Done [OF assms(1), of "\<lambda>s. heap_all accounted (heap s)", OF assms(2)])
     (rule matchIteration_accounted)

lemma cancelResidual_accounted:
  assumes "cancelResidual sd st = Done u st'" and acc: "heap_all accounted (heap st)"
  shows "heap_all accounted (heap st')"
proof -
  from cancelResidual_Done [OF assms(1)] show ?thesis
  proof
    assume "st' = st" with acc show ?thesis by simp
  next
    assume "\<exists>a ord st2. PriceLevels_front (heap st) (ladder sd st) = Some a \<and> heap st a = Some ord
               \<and> isMarket ord
               \<and> side_removeOrder sd a (st\<lparr> heap := (heap st)(a \<mapsto> cancel ord) \<rparr>) = Done () st2
               \<and> st' = emit (order_event a st2) st2"
    then obtain a ord st2 where ha: "heap st a = Some ord"
      and r: "side_removeOrder sd a (st\<lparr> heap := (heap st)(a \<mapsto> cancel ord) \<rparr>) = Done () st2"
      and st': "st' = emit (order_event a st2) st2" by blast
    have "heap_all accounted (heap st2)"
      using r by (rule side_removeOrder_accounted) (use acc in \<open>auto simp: cancel_def dest: heap_allD\<close>)
    then show ?thesis unfolding st' by (simp add: emit_def)
  qed
qed

lemma matchOrders_accounted:
  assumes "matchOrders sd st = Some (Done u st')" and "heap_all accounted (heap st)"
  shows "heap_all accounted (heap st')"
proof -
  from assms(1) obtain st1 where loop: "matchLoop sd st = Some (Done () st1)"
    and res: "cancelResidual sd st1 = Done () st'"
    by (rule matchOrders_Done)
  from loop assms(2) have "heap_all accounted (heap st1)" by (rule matchLoop_accounted)
  with res show ?thesis by (rule cancelResidual_accounted)
qed

lemma side_insertOrder_accounted:
  assumes i: "side_insertOrder sd a st = Done u st'"
    and oth: "\<And>x ord. x \<noteq> a \<Longrightarrow> heap st x = Some ord \<Longrightarrow> accounted ord"
    and at: "\<And>ord. heap st a = Some ord \<Longrightarrow> remaining ord + filled ord = quantity ord"
  shows "heap_all accounted (heap st')"
proof -
  from side_insertOrder_Done [OF i] obtain ord where ha: "heap st a = Some ord"
    and h': "heap st' = (heap st)(a \<mapsto> ord\<lparr> onList := True \<rparr>)" by blast
  show ?thesis
    unfolding h' by (rule heap_all_upd) (use oth at [OF ha] in \<open>auto intro: accounted_on_list\<close>)
qed

lemma OrderBook_insertOrder_accounted:
  assumes "OrderBook_insertOrder (Some a) st = Some (Done u st')"
    and acc: "heap_all accounted (heap st)"
    and at: "\<And>ord. heap st a = Some ord \<Longrightarrow> remaining ord + filled ord = quantity ord"
  shows "heap_all accounted (heap st')"
proof -
  from assms(1) obtain ord where ha: "heap st a = Some ord"
    by (auto simp: OrderBook_insertOrder_def split: option.splits)
  show ?thesis
  proof (cases "remaining ord \<le> 0")
    case True
    with assms(1) ha have "st' = st" by (simp add: OrderBook_insertOrder_def)
    with acc show ?thesis by simp
  next
    case False
    with assms(1) ha obtain st1 where ins: "side_insertOrder (side ord) a st = Done () st1"
      and m: "matchOrders (side ord) (emit (order_event a st1) st1) = Some (Done u st')"
      by (auto simp: OrderBook_insertOrder_def split: outcome.splits)
    have "heap_all accounted (heap st1)"
      using ins by (rule side_insertOrder_accounted) (use acc at in \<open>auto dest: heap_allD\<close>)
    then have "heap_all accounted (heap (emit (order_event a st1) st1))" by (simp add: emit_def)
    with m show ?thesis by (rule matchOrders_accounted)
  qed
qed

lemma quote_side_accounted:
  assumes "quote_side sd (Some a) p q st = Some (Done u st')" and acc: "heap_all accounted (heap st)"
  shows "heap_all accounted (heap st')"
proof (cases "q = 0")
  case True
  with assms show ?thesis by (simp add: quote_side_def)
next
  case False
  from quote_side_Done [OF assms(1) False] obtain ord st1 where ha: "heap st a = Some ord"
    and ins: "side_insertOrder sd a (st\<lparr> heap := (heap st)(a \<mapsto> rearm p q ord) \<rparr>) = Done () st1"
    and m: "matchOrders sd st1 = Some (Done u st')" by blast
  have "heap_all accounted (heap st1)"
    using ins by (rule side_insertOrder_accounted) (use acc in \<open>auto simp: rearm_def dest: heap_allD\<close>)
  with m show ?thesis by (rule matchOrders_accounted)
qed

lemma remove_if_onList_accounted:
  assumes "remove_if_onList sd (Some a) st = Done u st'" and acc: "heap_all accounted (heap st)"
  shows "heap_all accounted (heap st')"
proof -
  from remove_if_onList_Done [OF assms(1)] obtain ord where "heap st a = Some ord" and
    c: "if onList ord then side_removeOrder sd a st = Done () st' else st' = st" by auto
  show ?thesis
  proof (cases "onList ord")
    case True
    with c have "side_removeOrder sd a st = Done () st'" by simp
    then show ?thesis using acc by (rule side_removeOrder_accounted')
  next
    case False with c acc show ?thesis by simp
  qed
qed

lemma OrderBook_quote_accounted:
  assumes "OrderBook_quote qs bp bq ap aq st = Some (Done u st')" and acc: "heap_all accounted (heap st)"
  shows "heap_all accounted (heap st')"
proof -
  from OrderBook_quote_Done [OF assms(1)] obtain b a st1 st2 st3 where
    r1: "remove_if_onList BUY (Some b) st = Done () st1"
    and r2: "remove_if_onList SELL (Some a) st1 = Done () st2"
    and q1: "quote_side BUY (Some b) bp bq st2 = Some (Done () st3)"
    and q2: "quote_side SELL (Some a) ap aq st3 = Some (Done u st')" by blast
  have a1: "heap_all accounted (heap st1)" using r1 acc by (rule remove_if_onList_accounted)
  have a2: "heap_all accounted (heap st2)" using r2 a1 by (rule remove_if_onList_accounted)
  have a3: "heap_all accounted (heap st3)" using q1 a2 by (rule quote_side_accounted)
  show ?thesis using q2 a3 by (rule quote_side_accounted)
qed

lemma OrderBook_cancelOrder_accounted:
  assumes "OrderBook_cancelOrder (Some a) st = Done r st'" and acc: "heap_all accounted (heap st)"
  shows "heap_all accounted (heap st')"
proof -
  from assms(1) obtain ord where ha: "heap st a = Some ord"
    by (auto simp: OrderBook_cancelOrder_def split: option.splits)
  let ?st1 = "st\<lparr> heap := (heap st)(a \<mapsto> cancel ord) \<rparr>"
  consider (same) "st' = st" | (plain) "\<not> onList ord" "st' = ?st1"
    | (removed) st2 where "side_removeOrder (side ord) a ?st1 = Done () st2"
        "st' = emit (order_event a st2) st2"
    using assms(1) ha
    by (auto simp: OrderBook_cancelOrder_def Let_def split: if_splits outcome.splits)
  then show ?thesis
  proof cases
    case same with acc show ?thesis by simp
  next
    case plain
    have "heap_all accounted ((heap st)(a \<mapsto> cancel ord))"
      by (rule heap_all_upd) (use acc plain(1) in \<open>auto simp: cancel_def accounted_def dest: heap_allD\<close>)
    with plain show ?thesis by simp
  next
    case removed
    have "heap_all accounted (heap st2)"
      using removed(1)
      by (rule side_removeOrder_accounted) (use acc in \<open>auto simp: cancel_def dest: heap_allD\<close>)
    then show ?thesis unfolding removed(2) by (simp add: emit_def)
  qed
qed

section \<open>Quote pairs\<close>

lemma same_identity_sym: "same_identity h h' \<Longrightarrow> same_identity h' h"
  by (simp add: same_identity_def)

lemma frame_identity: "frame X st st' \<Longrightarrow> same_identity (heap st) (heap st')"
  by (simp add: frame_def)

lemma frame_outside: "frame X st st' \<Longrightarrow> x \<notin> X \<Longrightarrow> heap st' x = heap st x"
  by (simp add: frame_def)

lemma frame_ladder: "frame X st st' \<Longrightarrow> x \<notin> X \<Longrightarrow> x \<notin> ladder_nodes st \<Longrightarrow> x \<notin> ladder_nodes st'"
  by (auto simp: frame_def)

lemma frame_quotes: "frame X st st' \<Longrightarrow> quotes st' = quotes st"
  by (simp add: frame_def)

lemma pair_ok_bid:
  assumes "pair_ok n h qs" and "quote_bid qs = Some b"
  shows "\<exists>ord. h b = Some ord \<and> side ord = BUY \<and> instrument ord = n"
  using assms by (auto simp: pair_ok_def)

lemma pair_ok_ask:
  assumes "pair_ok n h qs" and "quote_ask qs = Some a"
  shows "\<exists>ord. h a = Some ord \<and> side ord = SELL \<and> instrument ord = n"
  using assms by (auto simp: pair_ok_def)

lemma same_identity_side:
  assumes "same_identity h h'"
  shows "map_option (\<lambda>ord. (side ord, instrument ord)) (h' x)
         = map_option (\<lambda>ord. (side ord, instrument ord)) (h x)"
proof -
  from assms have "map_option identity (h' x) = map_option identity (h x)"
    by (simp add: same_identity_def)
  then show ?thesis
    by (cases "h x"; cases "h' x") (auto simp: identity_def)
qed

lemma pair_ok_same_identity:
  assumes "pair_ok n h qs" and "same_identity h h'"
  shows "pair_ok n h' qs"
  using assms(1) unfolding pair_ok_def same_identity_side [OF assms(2)] .

lemma quotes_ok_same_identity:
  assumes "quotes_ok n h Q" and "same_identity h h'"
  shows "quotes_ok n h' Q"
  using assms by (auto simp: quotes_ok_def intro: pair_ok_same_identity)

lemma OrderBook_quote_book_inv:
  assumes inv: "book_inv n st" and ok: "pair_ok n (heap st) qs"
  shows "\<exists>r. OrderBook_quote qs bp bq ap aq st = Some r"
    and "\<And>u st'. OrderBook_quote qs bp bq ap aq st = Some (Done u st') \<Longrightarrow> book_inv n st'"
proof -
  have "(\<exists>r. OrderBook_quote qs bp bq ap aq st = Some r)
      \<and> (\<forall>u st'. OrderBook_quote qs bp bq ap aq st = Some (Done u st') \<longrightarrow> book_inv n st')"
  proof (cases "remove_if_onList BUY (quote_bid qs) st")
    case (Throw e s)
    then show ?thesis by (simp add: OrderBook_quote_def)
  next
    case (Fault f)
    then show ?thesis by (simp add: OrderBook_quote_def)
  next
    case r1: (Done u1 st1)
    from remove_if_onList_Done [OF r1] obtain b where b: "quote_bid qs = Some b" by blast
    note r1' = r1 [unfolded b]
    have inv1: "book_inv n st1" using r1' inv by (rule remove_if_onList_book_inv(1))
    have id1: "same_identity (heap st) (heap st1)"
      using remove_if_onList_frame(1) [OF r1'] by (rule frame_identity)
    have ok1: "pair_ok n (heap st1) qs" using ok id1 by (rule pair_ok_same_identity)
    show ?thesis
    proof (cases "remove_if_onList SELL (quote_ask qs) st1")
      case (Throw e s)
      with r1 show ?thesis by (simp add: OrderBook_quote_def)
    next
      case (Fault f)
      with r1 show ?thesis by (simp add: OrderBook_quote_def)
    next
      case r2: (Done u2 st2)
      from remove_if_onList_Done [OF r2] obtain a where a: "quote_ask qs = Some a" by blast
      note r2' = r2 [unfolded a]
      have inv2: "book_inv n st2" using r2' inv1 by (rule remove_if_onList_book_inv(1))
      have id2: "same_identity (heap st1) (heap st2)"
        using remove_if_onList_frame(1) [OF r2'] by (rule frame_identity)
      have ok2: "pair_ok n (heap st2) qs" using ok1 id2 by (rule pair_ok_same_identity)
      from pair_ok_bid [OF ok2 b] obtain bo where hb: "heap st2 b = Some bo"
        and sb: "side bo = BUY" and nb: "instrument bo = n" by blast
      from quote_side_book_inv(1) [OF inv2 hb sb nb, of bp bq]
      obtain rb where qb: "quote_side BUY (Some b) bp bq st2 = Some rb" by blast
      have eq: "OrderBook_quote qs bp bq ap aq st =
                (case rb of Done u st3 \<Rightarrow> quote_side SELL (Some a) ap aq st3 | other \<Rightarrow> Some other)"
        using r1 r2 qb a b by (simp add: OrderBook_quote_def split: outcome.splits)
      show ?thesis
      proof (cases rb)
        case (Throw e s)
        with eq show ?thesis by simp
      next
        case (Fault f)
        with eq show ?thesis by simp
      next
        case (Done u3 st3)
        with qb have qb': "quote_side BUY (Some b) bp bq st2 = Some (Done u3 st3)" by simp
        have inv3: "book_inv n st3" using qb' by (rule quote_side_book_inv(2) [OF inv2 hb sb nb])
        have id3: "same_identity (heap st2) (heap st3)"
          using quote_side_frame [OF qb'] by (rule frame_identity)
        have ok3: "pair_ok n (heap st3) qs" using ok2 id3 by (rule pair_ok_same_identity)
        from pair_ok_ask [OF ok3 a] obtain ao where ha: "heap st3 a = Some ao"
          and sa: "side ao = SELL" and na: "instrument ao = n" by blast
        from eq Done have eq': "OrderBook_quote qs bp bq ap aq st = quote_side SELL (Some a) ap aq st3"
          by simp
        show ?thesis
          unfolding eq'
          using quote_side_book_inv(1) [OF inv3 ha sa na, of ap aq]
                quote_side_book_inv(2) [OF inv3 ha sa na, of ap aq]
          by blast
      qed
    qed
  qed
  then show "\<exists>r. OrderBook_quote qs bp bq ap aq st = Some r"
    and "\<And>u st'. OrderBook_quote qs bp bq ap aq st = Some (Done u st') \<Longrightarrow> book_inv n st'"
    by blast+
qed

section \<open>The invariant of the exchange\<close>

lemma ex_inv_book:
  assumes "ex_inv ex" and "map_of (books ex) n = Some b"
  shows "book_inv n (open_book ex b)" and "quotes_ok n (heap ex) (the_quotes b)"
  using assms by (auto simp: ex_inv_def)

lemma ex_inv_accounted: "ex_inv ex \<Longrightarrow> heap_all accounted (heap ex)"
  by (simp add: ex_inv_def)

lemma ex_inv_order:
  assumes "ex_inv ex" and "heap ex a = Some ord"
  shows "a \<le> idCounter ex" and "exchangeId ord = a" and "a \<in> set (allOrders ex)"
    and "map_of (books ex) (instrument ord) \<noteq> None"
  using assms by (auto simp: ex_inv_def)

lemma ex_inv_new: "ex_inv new_exchange"
  by (simp add: ex_inv_def new_exchange_def heap_all_def)

lemma book_inv_empty: "book_inv n (open_book ex new_book)"
  by (simp add: book_inv_def rests_ok_def open_book_def new_book_def all_nodes_def)

lemma book_inv_heap_cong:
  assumes "book_inv n st" and "bids st' = bids st" and "asks st' = asks st"
    and "\<And>x. x \<in> ladder_nodes st \<Longrightarrow> heap st' x = heap st x"
  shows "book_inv n st'"
proof -
  from assms(1) have b: "rests_ok n BUY (heap st) (bids st)" and a: "rests_ok n SELL (heap st) (asks st)"
    by (simp_all add: book_inv_def)
  have "rests_ok n BUY (heap st') (bids st)"
    using b by (rule rests_ok_cong) (simp add: assms(4) ladder_nodes_def)
  moreover have "rests_ok n SELL (heap st') (asks st)"
    using a by (rule rests_ok_cong) (simp add: assms(4) ladder_nodes_def)
  ultimately show ?thesis by (simp add: book_inv_def assms(2,3))
qed

lemma getOrCreate_ex_inv:
  assumes inv: "ex_inv ex" and g: "getOrCreate instr ex = Done u ex1"
  shows "ex_inv ex1" and "heap ex1 = heap ex" and "idCounter ex1 = idCounter ex"
    and "allOrders ex1 = allOrders ex" and "map_of (books ex1) instr \<noteq> None"
proof -
  have "ex_inv ex1 \<and> heap ex1 = heap ex \<and> idCounter ex1 = idCounter ex
        \<and> allOrders ex1 = allOrders ex \<and> map_of (books ex1) instr \<noteq> None"
  proof (cases rule: getOrCreate_cases [of ex instr])
    case (known b)
    with g inv show ?thesis by simp
  next
    case full
    with g show ?thesis by simp
  next
    case new
    from new(3) g have ex1: "ex1 = ex\<lparr> books := books ex @ [(instr, new_book)] \<rparr>" by simp
    have m: "map_of (books ex1) k = (if k = instr then Some new_book else map_of (books ex) k)" for k
      using new(1) by (auto simp: ex1 map_add_def split: option.splits)
    have ob: "open_book ex1 b = open_book ex b" for b by (simp add: ex1 open_book_def)
    have "ex_inv ex1"
      unfolding ex_inv_def
    proof (intro conjI allI impI)
      fix k b assume "map_of (books ex1) k = Some b"
      then have c: "(k = instr \<and> b = new_book) \<or> map_of (books ex) k = Some b"
        by (auto simp: m split: if_splits)
      from c show "book_inv k (open_book ex1 b)"
        unfolding ob using ex_inv_book(1) [OF inv] book_inv_empty by auto
      from c show "quotes_ok k (heap ex1) (the_quotes b)"
        using ex_inv_book(2) [OF inv] by (auto simp: ex1 quotes_ok_def new_book_def)
    next
      show "heap_all accounted (heap ex1)" using ex_inv_accounted [OF inv] by (simp add: ex1)
    next
      fix a ord assume h: "heap ex1 a = Some ord"
      then have h0: "heap ex a = Some ord" by (simp add: ex1)
      from ex_inv_order [OF inv h0]
      show "a \<le> idCounter ex1" "exchangeId ord = a" "a \<in> set (allOrders ex1)"
        "map_of (books ex1) (instrument ord) \<noteq> None"
        by (auto simp: ex1 m)
    qed
    then show ?thesis by (simp add: ex1 m)
  qed
  then show "ex_inv ex1" and "heap ex1 = heap ex" and "idCounter ex1 = idCounter ex"
    and "allOrders ex1 = allOrders ex" and "map_of (books ex1) instr \<noteq> None" by simp_all
qed

lemma pair_ok_fresh:
  assumes "pair_ok n h qs" and "h a = None"
  shows "pair_ok n (h(a \<mapsto> ord)) qs"
  using assms unfolding pair_ok_def
  by (cases "quote_bid qs"; cases "quote_ask qs") auto

lemma create_order_ex_inv:
  assumes inv: "ex_inv ex" and bk: "map_of (books ex) instr \<noteq> None"
    and c: "create_order sid oid instr p q sd ex = (a, ex')"
  shows "ex_inv ex'" and "heap ex' = (heap ex)(a \<mapsto> Order_create sid oid instr p q sd a)"
    and "heap ex a = None" and "books ex' = books ex"
proof -
  from c have a: "a = Suc (idCounter ex)"
    and ex': "ex' = ex\<lparr> idCounter := a, heap := (heap ex)(a \<mapsto> Order_create sid oid instr p q sd a),
                        allOrders := a # allOrders ex \<rparr>"
    by (auto simp: create_order_def Let_def)
  show fresh: "heap ex a = None"
  proof (cases "heap ex a")
    case (Some ord)
    from ex_inv_order(1) [OF inv Some] a show ?thesis by simp
  qed simp
  show "heap ex' = (heap ex)(a \<mapsto> Order_create sid oid instr p q sd a)" by (simp add: ex')
  show "books ex' = books ex" by (simp add: ex')
  show "ex_inv ex'"
    unfolding ex_inv_def
  proof (intro conjI allI impI)
    fix k b assume "map_of (books ex') k = Some b"
    then have m: "map_of (books ex) k = Some b" by (simp add: ex')
    note bi = ex_inv_book(1) [OF inv m]
    have "a \<notin> ladder_nodes (open_book ex b)"
      using book_inv_node [OF bi, of a] fresh by (auto simp: open_book_def)
    with bi have "book_inv k ((open_book ex b)\<lparr> heap := (heap (open_book ex b))(a \<mapsto> Order_create sid oid instr p q sd a) \<rparr>)"
      by (rule book_inv_off_ladder)
    then show "book_inv k (open_book ex' b)"
      by (rule book_inv_heap_cong) (simp_all add: open_book_def ex')
    show "quotes_ok k (heap ex') (the_quotes b)"
      using ex_inv_book(2) [OF inv m] fresh
      by (auto simp: quotes_ok_def ex' intro: pair_ok_fresh)
  next
    show "heap_all accounted (heap ex')"
      using ex_inv_accounted [OF inv]
      by (auto simp: ex' heap_all_def accounted_def Order_create_def)
  next
    fix x ord assume h: "heap ex' x = Some ord"
    show "x \<le> idCounter ex'" "exchangeId ord = x" "x \<in> set (allOrders ex')"
      "map_of (books ex') (instrument ord) \<noteq> None"
      using h ex_inv_order [of ex x ord, OF inv] bk a
      by (auto simp: ex' Order_create_def split: if_splits)
  qed
qed

text \<open>
  An operation of the book of instrument \<open>n\<close> that stays within orders of that instrument
  and keeps the invariants of the book keeps the invariant of the exchange.
\<close>

lemma close_book_ex_inv:
  assumes inv: "ex_inv ex"
    and qo: "quotes_ok n (heap ex) (the_quotes b)"
    and fr: "frame X (open_book ex b) st"
    and bi: "book_inv n st"
    and acc: "heap_all accounted (heap st)"
    and X: "\<And>x. x \<in> X \<Longrightarrow> \<exists>ord. heap ex x = Some ord \<and> instrument ord = n"
  shows "ex_inv (close_book n st ex)"
proof -
  let ?ex = "close_book n st ex"
  have hp: "heap ?ex = heap st" and ic: "idCounter ?ex = idCounter ex"
    and ao: "allOrders ?ex = allOrders ex"
    by (simp_all add: close_book_def)
  have id: "same_identity (heap ex) (heap st)"
    using frame_identity [OF fr] by (simp add: open_book_def)
  have out: "heap st x = heap ex x" if "x \<notin> X" for x
    using frame_outside [OF fr that] by (simp add: open_book_def)
  show ?thesis
    unfolding ex_inv_def
  proof (intro conjI allI impI)
    fix k bk assume m: "map_of (books ?ex) k = Some bk"
    have "book_inv k (open_book ?ex bk) \<and> quotes_ok k (heap ?ex) (the_quotes bk)"
    proof (cases "k = n")
      case True
      with m have bk: "bk = \<lparr> the_bids = bids st, the_asks = asks st, the_quotes = quotes st \<rparr>"
        by (simp add: map_of_close_book)
      have "open_book ?ex bk = st" unfolding bk by (rule open_close_book)
      moreover have "quotes st = the_quotes b"
        using frame_quotes [OF fr] by (simp add: open_book_def)
      moreover have "quotes_ok n (heap st) (the_quotes b)"
        using qo id by (rule quotes_ok_same_identity)
      ultimately show ?thesis using bi True by (simp add: bk hp)
    next
      case False
      with m have m0: "map_of (books ex) k = Some bk" by (simp add: map_of_close_book)
      note bi0 = ex_inv_book(1) [OF inv m0]
      have "book_inv k (open_book ?ex bk)"
        using bi0
      proof (rule book_inv_heap_cong)
        fix x assume "x \<in> ladder_nodes (open_book ex bk)"
        from book_inv_node [OF bi0 this] obtain ord where "heap ex x = Some ord" "instrument ord = k"
          by (auto simp: open_book_def)
        with X [of x] False have "x \<notin> X" by auto
        from out [OF this] show "heap (open_book ?ex bk) x = heap (open_book ex bk) x"
          by (simp add: open_book_def hp)
      qed (simp_all add: open_book_def)
      moreover have "quotes_ok k (heap st) (the_quotes bk)"
        using ex_inv_book(2) [OF inv m0] id by (rule quotes_ok_same_identity)
      ultimately show ?thesis by (simp add: hp)
    qed
    then show "book_inv k (open_book ?ex bk)" and "quotes_ok k (heap ?ex) (the_quotes bk)"
      by simp_all
  next
    show "heap_all accounted (heap ?ex)" using acc by (simp add: hp)
  next
    fix a ord assume "heap ?ex a = Some ord"
    then have h: "heap st a = Some ord" by (simp add: hp)
    from same_identity_at [OF same_identity_sym [OF id] h]
    obtain ord0 where h0: "heap ex a = Some ord0" and i: "instrument ord0 = instrument ord"
      and e: "exchangeId ord0 = exchangeId ord" by metis
    from ex_inv_order [OF inv h0] i e
    show "a \<le> idCounter ?ex" "exchangeId ord = a" "a \<in> set (allOrders ?ex)"
      "map_of (books ?ex) (instrument ord) \<noteq> None"
      by (auto simp: ic ao map_of_close_book)
  qed
qed

section \<open>The public calls keep the invariant\<close>

lemma quotes_okD: "quotes_ok n h Q \<Longrightarrow> Q k = Some qs \<Longrightarrow> pair_ok n h qs"
  unfolding quotes_ok_def by blast

lemma heap_open_book [simp]: "heap (open_book ex b) = heap ex"
  by (simp add: open_book_def)

lemma returned_Some: "returned r = Some s \<longleftrightarrow> (\<exists>v. r = Some (Done v s))"
  by (auto simp: returned_def split: option.splits outcome.splits)

lemma Exchange_insertOrder_ex_inv:
  assumes inv: "ex_inv ex"
  shows "\<exists>r. Exchange_insertOrder sid instr p q sd oid ex = Some r"
    and "\<And>v ex'. Exchange_insertOrder sid instr p q sd oid ex = Some (Done v ex') \<Longrightarrow> ex_inv ex'"
proof -
  have "(\<exists>r. Exchange_insertOrder sid instr p q sd oid ex = Some r)
      \<and> (\<forall>v ex'. Exchange_insertOrder sid instr p q sd oid ex = Some (Done v ex') \<longrightarrow> ex_inv ex')"
  proof (cases "getOrCreate instr ex")
    case (Throw e s)
    then have "s = ex" by (auto simp: getOrCreate_def split: option.splits if_splits)
    with Throw inv show ?thesis by (simp add: Exchange_insertOrder_def)
  next
    case (Fault f)
    then show ?thesis by (simp add: Exchange_insertOrder_def)
  next
    case (Done u ex1)
    note g = getOrCreate_ex_inv [OF inv Done]
    from g(5) obtain b where b: "map_of (books ex1) instr = Some b" by blast
    obtain a ex2 where c: "create_order sid oid instr p q sd ex1 = (a, ex2)" by force
    note c2 = create_order_ex_inv [OF g(1) g(5) c]
    let ?st = "open_book ex2 b"
    have b2: "map_of (books ex2) instr = Some b" using b c2(4) by simp
    have bi: "book_inv instr ?st" using c2(1) b2 by (rule ex_inv_book(1))
    have ha: "heap ?st a = Some (Order_create sid oid instr p q sd a)"
      by (simp add: open_book_def c2(2))
    have ia: "instrument (Order_create sid oid instr p q sd a) = instr"
      by (simp add: Order_create_def)
    note ob = OrderBook_insertOrder_book_inv [OF bi ha ia]
    from ob(1) obtain r where r: "OrderBook_insertOrder (Some a) ?st = Some r" by blast
    have eq: "Exchange_insertOrder sid instr p q sd oid ex =
              (case r of Done v st \<Rightarrow> Some (Done (Some a) (close_book instr st ex2))
               | Throw e st \<Rightarrow> Some (Done None (close_book instr st ex2))
               | Fault f \<Rightarrow> Some (Fault f))"
      using Done b c r by (simp add: Exchange_insertOrder_def)
    show ?thesis
    proof (cases r)
      case (Throw e s)
      with r ob(2) show ?thesis by simp
    next
      case (Fault f)
      with eq show ?thesis by simp
    next
      case d: (Done v st)
      with r have r': "OrderBook_insertOrder (Some a) ?st = Some (Done v st)" by simp
      have "ex_inv (close_book instr st ex2)"
      proof (rule close_book_ex_inv [OF c2(1)])
        show "quotes_ok instr (heap ex2) (the_quotes b)" using c2(1) b2 by (rule ex_inv_book(2))
        show "frame (insert a (ladder_nodes ?st)) ?st st" using r' by (rule OrderBook_insertOrder_frame)
        show "book_inv instr st" using r' by (rule ob(3))
        show "heap_all accounted (heap st)"
          using r'
        proof (rule OrderBook_insertOrder_accounted)
          show "heap_all accounted (heap ?st)"
            using ex_inv_accounted [OF c2(1)] by (simp add: open_book_def)
          show "remaining ord + filled ord = quantity ord" if "heap ?st a = Some ord" for ord
            using that ha by (auto simp: Order_create_def)
        qed
        show "\<exists>ord. heap ex2 x = Some ord \<and> instrument ord = instr"
          if "x \<in> insert a (ladder_nodes ?st)" for x
          using that ha ia book_inv_node [OF bi, of x] by (auto simp: open_book_def)
      qed
      with eq d show ?thesis by simp
    qed
  qed
  then show "\<exists>r. Exchange_insertOrder sid instr p q sd oid ex = Some r"
    and "\<And>v ex'. Exchange_insertOrder sid instr p q sd oid ex = Some (Done v ex') \<Longrightarrow> ex_inv ex'"
    by blast+
qed

lemma create_quote_side_ex_inv:
  assumes inv: "ex_inv ex" and bk: "map_of (books ex) instr \<noteq> None"
    and c: "create_quote_side sid qid instr p q sd ex = (x, ex')"
  shows "ex_inv ex'" and "books ex' = books ex"
    and "\<And>a. x = Some a \<Longrightarrow> map_option (\<lambda>ord. (side ord, instrument ord)) (heap ex' a) = Some (sd, instr)"
    and "\<And>y ord. heap ex y = Some ord \<Longrightarrow> heap ex' y = Some ord"
proof -
  have "ex_inv ex' \<and> books ex' = books ex
        \<and> (\<forall>a. x = Some a \<longrightarrow> map_option (\<lambda>ord. (side ord, instrument ord)) (heap ex' a) = Some (sd, instr))
        \<and> (\<forall>y ord. heap ex y = Some ord \<longrightarrow> heap ex' y = Some ord)"
  proof (cases "q > 0")
    case False
    with c inv show ?thesis by (simp add: create_quote_side_def)
  next
    case True
    obtain a ex2 where c2: "create_order sid qid instr p q sd ex = (a, ex2)" by force
    with c True have x: "x = Some a" and e: "ex' = ex2" by (simp_all add: create_quote_side_def)
    note co = create_order_ex_inv [OF inv bk c2]
    show ?thesis using co by (auto simp: x e Order_create_def)
  qed
  then show "ex_inv ex'" and "books ex' = books ex"
    and "\<And>a. x = Some a \<Longrightarrow> map_option (\<lambda>ord. (side ord, instrument ord)) (heap ex' a) = Some (sd, instr)"
    and "\<And>y ord. heap ex y = Some ord \<Longrightarrow> heap ex' y = Some ord"
    by blast+
qed

lemma createOrders_ex_inv:
  assumes inv: "ex_inv ex" and bk: "map_of (books ex) instr \<noteq> None"
    and c: "createOrders sid qid instr bp bq ap aq ex = (qs, ex')"
  shows "ex_inv ex'" and "books ex' = books ex" and "pair_ok instr (heap ex') qs"
proof -
  obtain b ex1 where c1: "create_quote_side sid qid instr bp bq BUY ex = (b, ex1)" by force
  obtain a ex2 where c2: "create_quote_side sid qid instr ap aq SELL ex1 = (a, ex2)" by force
  from c c1 c2 have qs: "qs = \<lparr> quote_bid = b, quote_ask = a \<rparr>" and e: "ex' = ex2"
    by (simp_all add: createOrders_def)
  note s1 = create_quote_side_ex_inv [OF inv bk c1]
  have bk1: "map_of (books ex1) instr \<noteq> None" using bk s1(2) by simp
  note s2 = create_quote_side_ex_inv [OF s1(1) bk1 c2]
  show "ex_inv ex'" using s2(1) e by simp
  show "books ex' = books ex" using s1(2) s2(2) e by simp
  have "map_option (\<lambda>ord. (side ord, instrument ord)) (heap ex2 x) = Some (BUY, instr)"
    if "b = Some x" for x
  proof -
    from s1(3) [OF that] obtain ord where h: "heap ex1 x = Some ord"
      and "side ord = BUY" "instrument ord = instr" by auto
    with s2(4) [OF h] show ?thesis by simp
  qed
  with s2(3) show "pair_ok instr (heap ex') qs"
    unfolding pair_ok_def qs e by (cases b; cases a) simp_all
qed

text \<open>What \<open>Exchange::quote\<close> hands to the book, and what it does with the result.\<close>

lemma Exchange_quote_cases:
  assumes inv: "ex_inv ex"
  obtains (full) "Exchange_quote sid instr bp bq ap aq qid ex = Some (Throw NoRoomInBooks ex)"
  | (run) ex2 b qs where "ex_inv ex2" "book_inv instr (open_book ex2 b)"
      "quotes_ok instr (heap ex2) (the_quotes b)" "the_quotes b (sid, qid) = Some qs"
      "Exchange_quote sid instr bp bq ap aq qid ex =
         (case OrderBook_quote qs bp bq ap aq (open_book ex2 b) of
            None \<Rightarrow> None
          | Some (Done u st) \<Rightarrow> Some (Done () (close_book instr st ex2))
          | Some (Throw e st) \<Rightarrow> Some (Throw e (close_book instr st ex2))
          | Some (Fault f) \<Rightarrow> Some (Fault f))"
proof (cases "getOrCreate instr ex")
  case (Throw e s)
  then have "s = ex" "e = NoRoomInBooks" by (auto simp: getOrCreate_def split: option.splits if_splits)
  with Throw show ?thesis by (intro full) (simp add: Exchange_quote_def)
next
  case (Fault f)
  then show ?thesis by (auto simp: getOrCreate_def split: option.splits if_splits)
next
  case (Done u ex1)
  note g = getOrCreate_ex_inv [OF inv Done]
  from g(5) obtain b where b: "map_of (books ex1) instr = Some b" by blast
  show ?thesis
  proof (cases "the_quotes b (sid, qid)")
    case (Some qs)
    show ?thesis
    proof (rule run [of ex1 b qs])
      show "ex_inv ex1" by (rule g(1))
      show "book_inv instr (open_book ex1 b)" using g(1) b by (rule ex_inv_book(1))
      show "quotes_ok instr (heap ex1) (the_quotes b)" using g(1) b by (rule ex_inv_book(2))
      show "the_quotes b (sid, qid) = Some qs" by (rule Some)
      show "Exchange_quote sid instr bp bq ap aq qid ex =
         (case OrderBook_quote qs bp bq ap aq (open_book ex1 b) of
            None \<Rightarrow> None
          | Some (Done u st) \<Rightarrow> Some (Done () (close_book instr st ex1))
          | Some (Throw e st) \<Rightarrow> Some (Throw e (close_book instr st ex1))
          | Some (Fault f) \<Rightarrow> Some (Fault f))"
        using Done b Some by (simp add: Exchange_quote_def)
    qed
  next
    case None
    obtain qs ex2 where c: "createOrders sid qid instr bp bq ap aq ex1 = (qs, ex2)" by force
    note co = createOrders_ex_inv [OF g(1) g(5) c]
    let ?b = "b\<lparr> the_quotes := (the_quotes b)((sid, qid) \<mapsto> qs) \<rparr>"
    have b2: "map_of (books ex2) instr = Some b" using b co(2) by simp
    show ?thesis
    proof (rule run [of ex2 ?b qs])
      show "ex_inv ex2" by (rule co(1))
      show "book_inv instr (open_book ex2 ?b)"
        using ex_inv_book(1) [OF co(1) b2] by (rule book_inv_heap_cong) (simp_all add: open_book_def)
      show "quotes_ok instr (heap ex2) (the_quotes ?b)"
        using ex_inv_book(2) [OF co(1) b2] co(3) by (simp add: quotes_ok_def)
      show "the_quotes ?b (sid, qid) = Some qs" by simp
      show "Exchange_quote sid instr bp bq ap aq qid ex =
         (case OrderBook_quote qs bp bq ap aq (open_book ex2 ?b) of
            None \<Rightarrow> None
          | Some (Done u st) \<Rightarrow> Some (Done () (close_book instr st ex2))
          | Some (Throw e st) \<Rightarrow> Some (Throw e (close_book instr st ex2))
          | Some (Fault f) \<Rightarrow> Some (Fault f))"
        using Done b None c by (simp add: Exchange_quote_def)
    qed
  qed
qed

lemma OrderBook_quote_close_ex_inv:
  assumes inv: "ex_inv ex" and bi: "book_inv n (open_book ex b)"
    and qo: "quotes_ok n (heap ex) (the_quotes b)" and qs: "the_quotes b k = Some qs"
    and q: "OrderBook_quote qs bp bq ap aq (open_book ex b) = Some (Done u st)"
  shows "ex_inv (close_book n st ex)"
proof -
  let ?st = "open_book ex b"
  from quotes_okD [OF qo qs] have ok: "pair_ok n (heap ?st) qs" by simp
  from OrderBook_quote_Done [OF q] obtain x y where x: "quote_bid qs = Some x"
    and y: "quote_ask qs = Some y" by blast
  show ?thesis
  proof (rule close_book_ex_inv [OF inv qo])
    show "frame ({x, y} \<union> ladder_nodes ?st) ?st st" using q x y by (rule OrderBook_quote_frame)
    show "book_inv n st" using q by (rule OrderBook_quote_book_inv(2) [OF bi ok])
    show "heap_all accounted (heap st)"
      using q by (rule OrderBook_quote_accounted) (use ex_inv_accounted [OF inv] in \<open>simp add: open_book_def\<close>)
    show "\<exists>ord. heap ex z = Some ord \<and> instrument ord = n" if "z \<in> {x, y} \<union> ladder_nodes ?st" for z
      using that pair_ok_bid [OF ok x] pair_ok_ask [OF ok y] book_inv_node [OF bi, of z]
      by (auto simp: open_book_def)
  qed
qed

lemma Exchange_quote_ex_inv:
  assumes inv: "ex_inv ex"
  shows "\<exists>r. Exchange_quote sid instr bp bq ap aq qid ex = Some r"
    and "\<And>v ex'. Exchange_quote sid instr bp bq ap aq qid ex = Some (Done v ex') \<Longrightarrow> ex_inv ex'"
proof -
  have "(\<exists>r. Exchange_quote sid instr bp bq ap aq qid ex = Some r)
      \<and> (\<forall>v ex'. Exchange_quote sid instr bp bq ap aq qid ex = Some (Done v ex') \<longrightarrow> ex_inv ex')"
    using inv
  proof (cases rule: Exchange_quote_cases [where sid = sid and instr = instr and bp = bp
              and bq = bq and ap = ap and aq = aq and qid = qid])
    case full
    then show ?thesis by simp
  next
    case (run ex2 b qs)
    from quotes_okD [OF run(3,4)] have ok: "pair_ok instr (heap (open_book ex2 b)) qs" by simp
    from OrderBook_quote_book_inv(1) [OF run(2) ok, of bp bq ap aq]
    obtain r where r: "OrderBook_quote qs bp bq ap aq (open_book ex2 b) = Some r" by blast
    show ?thesis
    proof (cases r)
      case (Done u st)
      with r have "OrderBook_quote qs bp bq ap aq (open_book ex2 b) = Some (Done u st)" by simp
      from OrderBook_quote_close_ex_inv [OF run(1,2,3,4) this] run(5) r Done
      show ?thesis by simp
    next
      case (Throw e s)
      with run(5) r show ?thesis by simp
    next
      case (Fault f)
      with run(5) r show ?thesis by simp
    qed
  qed
  then show "\<exists>r. Exchange_quote sid instr bp bq ap aq qid ex = Some r"
    and "\<And>v ex'. Exchange_quote sid instr bp bq ap aq qid ex = Some (Done v ex') \<Longrightarrow> ex_inv ex'"
    by blast+
qed

lemma Exchange_cancel_ex_inv:
  assumes inv: "ex_inv ex" and c: "Exchange_cancel eid sid ex = Done r ex'"
  shows "ex_inv ex'"
proof -
  have "ex' = ex \<or> (\<exists>a ord b res st. heap ex a = Some ord
            \<and> map_of (books ex) (instrument ord) = Some b
            \<and> OrderBook_cancelOrder (Some a) (open_book ex b) = Done res st
            \<and> ex' = close_book (instrument ord) st ex)"
  proof (cases "OrderMap_get ex eid")
    case None
    with c show ?thesis by (simp add: Exchange_cancel_def Exchange_cancel_Done_bucket [OF c])
  next
    case (Some a)
    show ?thesis
    proof (cases "heap ex a")
      case None
      with c Some show ?thesis by (simp add: Exchange_cancel_def Exchange_cancel_Done_bucket [OF c])
    next
      case ho: (Some ord)
      show ?thesis
      proof (cases "map_of (books ex) (instrument ord)")
        case None
        with c Some ho show ?thesis by (simp add: Exchange_cancel_def Exchange_cancel_Done_bucket [OF c] split: if_splits)
      next
        case bk: (Some b)
        show ?thesis
        proof (cases "OrderBook_cancelOrder (Some a) (open_book ex b)")
          case (Done res st)
          show ?thesis
          proof (cases "sessionId ord = sid")
            case True
            with c Some ho bk Done have "ex' = close_book (instrument ord) st ex"
              by (simp add: Exchange_cancel_def Exchange_cancel_Done_bucket [OF c])
            with ho bk Done show ?thesis by blast
          next
            case False
            with c Some ho show ?thesis by (simp add: Exchange_cancel_def Exchange_cancel_Done_bucket [OF c])
          qed
        next
          case (Throw e s)
          with c Some ho bk show ?thesis
            by (cases "sessionId ord = sid") (simp_all add: Exchange_cancel_def Exchange_cancel_Done_bucket [OF c])
        next
          case (Fault f)
          with c Some ho bk show ?thesis
            by (cases "sessionId ord = sid") (simp_all add: Exchange_cancel_def Exchange_cancel_Done_bucket [OF c])
        qed
      qed
    qed
  qed
  then show ?thesis
  proof
    assume "ex' = ex" with inv show ?thesis by simp
  next
    assume "\<exists>a ord b res st. heap ex a = Some ord
            \<and> map_of (books ex) (instrument ord) = Some b
            \<and> OrderBook_cancelOrder (Some a) (open_book ex b) = Done res st
            \<and> ex' = close_book (instrument ord) st ex"
    then obtain a ord b res st where ho: "heap ex a = Some ord"
      and bk: "map_of (books ex) (instrument ord) = Some b"
      and co: "OrderBook_cancelOrder (Some a) (open_book ex b) = Done res st"
      and e: "ex' = close_book (instrument ord) st ex" by blast
    let ?st = "open_book ex b"
    have "ex_inv (close_book (instrument ord) st ex)"
    proof (rule close_book_ex_inv [OF inv])
      show "quotes_ok (instrument ord) (heap ex) (the_quotes b)" using inv bk by (rule ex_inv_book(2))
      show "frame {a} ?st st" using co by (rule OrderBook_cancelOrder_frame)
      show "book_inv (instrument ord) st"
        using co ex_inv_book(1) [OF inv bk] by (rule OrderBook_cancelOrder_book_inv)
      show "heap_all accounted (heap st)"
        using co
        by (rule OrderBook_cancelOrder_accounted) (use ex_inv_accounted [OF inv] in simp)
      show "\<exists>ord'. heap ex x = Some ord' \<and> instrument ord' = instrument ord" if "x \<in> {a}" for x
        using that ho by simp
    qed
    with e show ?thesis by simp
  qed
qed

lemma step_ex_inv:
  assumes "ex_inv ex" and "step c ex = Some ex'"
  shows "ex_inv ex'"
proof (cases c)
  case (Buy sid instr p q oid)
  with assms(2) obtain v where "Exchange_insertOrder sid instr p q BUY oid ex = Some (Done v ex')"
    by (auto simp: returned_Some Exchange_buy_def)
  then show ?thesis by (rule Exchange_insertOrder_ex_inv(2) [OF assms(1)])
next
  case (Sell sid instr p q oid)
  with assms(2) obtain v where "Exchange_insertOrder sid instr p q SELL oid ex = Some (Done v ex')"
    by (auto simp: returned_Some Exchange_sell_def)
  then show ?thesis by (rule Exchange_insertOrder_ex_inv(2) [OF assms(1)])
next
  case (MarketBuy sid instr q oid)
  with assms(2) obtain v where "Exchange_insertOrder sid instr PlusMax q BUY oid ex = Some (Done v ex')"
    by (auto simp: returned_Some Exchange_marketBuy_def Exchange_buy_def)
  then show ?thesis by (rule Exchange_insertOrder_ex_inv(2) [OF assms(1)])
next
  case (MarketSell sid instr q oid)
  with assms(2) obtain v where "Exchange_insertOrder sid instr MinusMax q SELL oid ex = Some (Done v ex')"
    by (auto simp: returned_Some Exchange_marketSell_def Exchange_sell_def)
  then show ?thesis by (rule Exchange_insertOrder_ex_inv(2) [OF assms(1)])
next
  case (Quote sid instr bp bq ap aq qid)
  with assms(2) obtain v where "Exchange_quote sid instr bp bq ap aq qid ex = Some (Done v ex')"
    by (auto simp: returned_Some)
  then show ?thesis by (rule Exchange_quote_ex_inv(2) [OF assms(1)])
next
  case (Cancel eid sid)
  with assms(2) obtain v where "Exchange_cancel eid sid ex = Done v ex'"
    by (auto simp: returned_Some)
  with assms(1) show ?thesis by (rule Exchange_cancel_ex_inv)
qed

lemma reachable_ex_inv: "reachable ex \<Longrightarrow> ex_inv ex"
  by (induction rule: reachable.induct) (auto intro: ex_inv_new step_ex_inv)

section \<open>Reachable states\<close>

lemma run_reachable:
  assumes "reachable ex" and "run cs ex = Some ex'"
  shows "reachable ex'"
  using assms
proof (induction cs arbitrary: ex)
  case Nil
  then show ?case by simp
next
  case (Cons c cs)
  from Cons.prems(2) obtain ex1 where s: "step c ex = Some ex1" and r: "run cs ex1 = Some ex'"
    by (auto split: option.splits)
  from Cons.prems(1) s have "reachable ex1" by (rule reachable_step)
  then show ?case using r by (rule Cons.IH)
qed

lemma find_unique:
  assumes "a \<in> set xs" and "\<And>y. P y \<longleftrightarrow> y = a"
  shows "find P xs = Some a"
  using assms(1) by (induction xs) (auto simp: assms(2))

lemma OrderMap_get_ex_inv:
  assumes inv: "ex_inv ex" and h: "heap ex a = Some ord"
  shows "OrderMap_get ex (int a) = Some a"
  unfolding OrderMap_get_def
proof (rule find_unique)
  show "a \<in> set (allOrders ex)" using inv h by (rule ex_inv_order(3))
  show "(case heap ex y of None \<Rightarrow> False | Some ord \<Rightarrow> int (exchangeId ord) = int a) \<longleftrightarrow> y = a" for y
  proof (cases "heap ex y")
    case None
    with h show ?thesis by auto
  next
    case (Some o')
    from ex_inv_order(2) [OF inv Some] ex_inv_order(2) [OF inv h] Some h show ?thesis by auto
  qed
qed

lemma Exchange_getOrder_ex_inv:
  assumes inv: "ex_inv ex" and h: "heap ex a = Some ord"
  shows "Exchange_getOrder ex a = Some ord"
  using OrderMap_get_ex_inv [OF inv h] h ex_inv_order(4) [OF inv h]
  by (auto simp: Exchange_getOrder_def)


section \<open>One pass of the matching loop\<close>

lemma matchIteration_trade:
  assumes it: "matchIteration sd st = Done True st'" and inv: "book_inv n st"
  shows "\<exists>b a bo ao t. PriceLevels_front (heap st) (bids st) = Some b
           \<and> PriceLevels_front (heap st) (asks st) = Some a
           \<and> heap st b = Some bo \<and> heap st a = Some ao
           \<and> last (events st') = OnTrade t
           \<and> trade_quantity t = min (remaining bo) (remaining ao)
           \<and> ((map_option remaining (heap st' b) = Some 0 \<and> b \<notin> ladder_nodes st')
               \<or> (map_option remaining (heap st' a) = Some 0 \<and> a \<notin> ladder_nodes st'))"
proof -
  from it obtain b a bo ao st1 st2 st3 st4 where
      fb: "PriceLevels_front (heap st) (bids st) = Some b"
    and fa: "PriceLevels_front (heap st) (asks st) = Some a"
    and hb: "heap st b = Some bo" and ha: "heap st a = Some ao" and le: "price ao \<le> price bo"
    and f1: "fill_at b (min (remaining bo) (remaining ao)) (min (price bo) (price ao)) st = Done () st1"
    and f2: "fill_at a (min (remaining bo) (remaining ao)) (min (price bo) (price ao)) st1 = Done () st2"
    and r1: "remove_if_done BUY b st2 = Done () st3"
    and r2: "remove_if_done SELL a st3 = Done () st4"
    and st': "st' = emit (order_event b st4 @ order_event a st4 @
             [OnTrade \<lparr> trade_price = min (price bo) (price ao),
                        trade_quantity = min (remaining bo) (remaining ao),
                        aggressor = (if sd = BUY then b else a),
                        opposite = (if sd = BUY then a else b) \<rparr>]) st4"
    by (rule matchIteration_True)
  let ?q = "min (remaining bo) (remaining ao)"
  let ?t = "\<lparr> trade_price = min (price bo) (price ao), trade_quantity = ?q,
              aggressor = (if sd = BUY then b else a), opposite = (if sd = BUY then a else b) \<rparr>"
  have ne: "b \<noteq> a"
    using front_in_nodes(1) [OF fb] front_in_nodes(1) [OF fa] book_inv_disjoint [OF inv] by auto
  from fill_at_Done [OF f1] hb obtain bo' where fb': "fill ?q (min (price bo) (price ao)) bo = Some bo'"
    and s1: "st1 = st\<lparr> heap := (heap st)(b \<mapsto> bo') \<rparr>" by auto
  from fill_at_Done [OF f2] ha ne s1 obtain ao' where fa': "fill ?q (min (price bo) (price ao)) ao = Some ao'"
    and s2: "st2 = st1\<lparr> heap := (heap st1)(a \<mapsto> ao') \<rparr>" by auto
  have rb: "remaining bo' = remaining bo - ?q" using fill_Some [OF fb'] by simp
  have ra: "remaining ao' = remaining ao - ?q" using fill_Some [OF fa'] by simp
  have h2b: "heap st2 b = Some bo'" using s1 s2 ne by simp
  have h2a: "heap st2 a = Some ao'" using s2 by simp
  have i1: "book_inv n st1" using f1 inv by (rule fill_at_book_inv)
  have i2: "book_inv n st2" using f2 i1 by (rule fill_at_book_inv)
  have i3: "book_inv n st3" using r1 i2 by (rule remove_if_done_book_inv)
  have h3a: "heap st3 a = Some ao'"
    using remove_if_done_count(3) [OF r1, of a] ne h2a by simp
  have ev: "last (events st') = OnTrade ?t" unfolding st' by (simp add: emit_def)
  have hp: "heap st' = heap st4" and ln: "ladder_nodes st' = ladder_nodes st4"
    unfolding st' by (simp_all add: emit_def ladder_nodes_def)
  have "(map_option remaining (heap st4 b) = Some 0 \<and> b \<notin> ladder_nodes st4)
        \<or> (map_option remaining (heap st4 a) = Some 0 \<and> a \<notin> ladder_nodes st4)"
  proof (cases "remaining bo \<le> remaining ao")
    case True
    then have z: "remaining bo' = 0" using rb by simp
    from remove_if_done_Done [OF r1] h2b z have rm: "side_removeOrder BUY b st2 = Done () st3" by auto
    from side_removeOrder_Done [OF rm] h2b have h3b: "heap st3 b = Some (bo'\<lparr> onList := False \<rparr>)"
      by auto
    have n3: "b \<notin> ladder_nodes st3" using rm i2 by (rule side_removeOrder_book_inv(2))
    have "heap st4 b = heap st3 b" using remove_if_done_count(3) [OF r2, of b] ne by simp
    moreover have "b \<notin> ladder_nodes st4" using remove_if_done_frame(2) [OF r2] n3 by auto
    ultimately show ?thesis using h3b z by simp
  next
    case False
    then have z: "remaining ao' = 0" using ra by simp
    from remove_if_done_Done [OF r2] h3a z have rm: "side_removeOrder SELL a st3 = Done () st4" by auto
    from side_removeOrder_Done [OF rm] h3a have "heap st4 a = Some (ao'\<lparr> onList := False \<rparr>)"
      by auto
    moreover have "a \<notin> ladder_nodes st4" using rm i3 by (rule side_removeOrder_book_inv(2))
    ultimately show ?thesis using z by simp
  qed
  with fb fa hb ha ev show ?thesis unfolding hp ln by (intro exI [of _ b] exI [of _ a] exI [of _ bo] exI [of _ ao] exI [of _ ?t]) simp
qed

section \<open>A side of a quote with target quantity zero\<close>

lemma pair_ok_distinct:
  assumes "pair_ok n h qs" and "quote_bid qs = Some b" and "quote_ask qs = Some a"
  shows "b \<noteq> a"
  using pair_ok_bid [OF assms(1,2)] pair_ok_ask [OF assms(1,3)] by auto

lemma OrderBook_quote_pulled:
  assumes q: "OrderBook_quote qs bp bq ap aq st = Some (Done u st')"
    and inv: "book_inv n st" and ok: "pair_ok n (heap st) qs"
    and x: "quote_order sd qs = Some x" and hx: "heap st x = Some ord"
    and z: "target_quantity sd bq aq = 0"
  shows "heap st' x = Some (ord\<lparr> onList := False \<rparr>)" and "x \<notin> ladder_nodes st'"
proof -
  from OrderBook_quote_Done [OF q] obtain b a st1 st2 st3 where
    b: "quote_bid qs = Some b" and a: "quote_ask qs = Some a"
    and r1: "remove_if_onList BUY (Some b) st = Done () st1"
    and r2: "remove_if_onList SELL (Some a) st1 = Done () st2"
    and q1: "quote_side BUY (Some b) bp bq st2 = Some (Done () st3)"
    and q2: "quote_side SELL (Some a) ap aq st3 = Some (Done u st')" by blast
  have ne: "b \<noteq> a" using ok b a by (rule pair_ok_distinct)
  have i1: "book_inv n st1" using r1 inv by (rule remove_if_onList_book_inv(1))
  have "heap st' x = Some (ord\<lparr> onList := False \<rparr>) \<and> x \<notin> ladder_nodes st'"
  proof (cases sd)
    case BUY
    with x b z have xb: "x = b" and bq: "bq = 0" by (simp_all add: quote_order_def target_quantity_def)
    from remove_if_onList_Done [OF r1] hx xb
    have h1: "heap st1 b = Some (ord\<lparr> onList := False \<rparr>)" by auto
    have n1: "b \<notin> ladder_nodes st1" using r1 inv by (rule remove_if_onList_book_inv(2))
    have h2: "heap st2 b = heap st1 b"
      using remove_if_onList_frame(1) [OF r2] by (rule frame_outside) (use ne in simp)
    have n2: "b \<notin> ladder_nodes st2" using remove_if_onList_frame(2) [OF r2] n1 by auto
    from q1 have s3: "st3 = st2" by (simp add: bq quote_side_zero)
    note fr = quote_side_frame [OF q2]
    have out: "b \<notin> insert a (ladder_nodes st3)" using ne n2 s3 by simp
    have "heap st' b = heap st3 b" using fr out by (rule frame_outside)
    moreover have "b \<notin> ladder_nodes st'" using fr out by (rule frame_ladder) (use n2 s3 in simp)
    ultimately show ?thesis using h1 h2 s3 xb by simp
  next
    case SELL
    with x a z have xa: "x = a" and aq: "aq = 0" by (simp_all add: quote_order_def target_quantity_def)
    have h1: "heap st1 a = Some ord"
      using frame_outside [OF remove_if_onList_frame(1) [OF r1], of a] ne hx xa by simp
    from remove_if_onList_Done [OF r2] h1
    have h2: "heap st2 a = Some (ord\<lparr> onList := False \<rparr>)" by auto
    have n2: "a \<notin> ladder_nodes st2" using r2 i1 by (rule remove_if_onList_book_inv(2))
    note fr = quote_side_frame [OF q1]
    have out: "a \<notin> insert b (ladder_nodes st2)" using ne n2 by simp
    have h3: "heap st3 a = heap st2 a" using fr out by (rule frame_outside)
    have n3: "a \<notin> ladder_nodes st3" using fr out n2 by (rule frame_ladder)
    from q2 have "st' = st3" by (simp add: aq quote_side_zero)
    then show ?thesis using h2 h3 n3 xa by simp
  qed
  then show "heap st' x = Some (ord\<lparr> onList := False \<rparr>)" and "x \<notin> ladder_nodes st'" by simp_all
qed

lemma Exchange_quote_known:
  assumes "map_of (books ex) instr = Some b" and "the_quotes b (sid, qid) = Some qs"
  shows "Exchange_quote sid instr bp bq ap aq qid ex =
         (case OrderBook_quote qs bp bq ap aq (open_book ex b) of
            None \<Rightarrow> None
          | Some (Done u st) \<Rightarrow> Some (Done () (close_book instr st ex))
          | Some (Throw e st) \<Rightarrow> Some (Throw e (close_book instr st ex))
          | Some (Fault f) \<Rightarrow> Some (Fault f))"
  using assms by (simp add: Exchange_quote_def getOrCreate_def)

lemma resting_close_book:
  "set (resting (close_book instr st ex) instr sd) \<subseteq> ladder_nodes st"
  by (auto simp: resting_def map_of_close_book ladder_nodes_def)

lemma Exchange_quote_pulled:
  assumes inv: "ex_inv ex"
    and bk: "map_of (books ex) instr = Some b" and qs: "the_quotes b (sid, qid) = Some qs"
    and x: "quote_order sd qs = Some x" and hx: "heap ex x = Some ord"
    and z: "target_quantity sd bq aq = 0"
    and q: "Exchange_quote sid instr bp bq ap aq qid ex = Some (Done u ex')"
  shows "Exchange_getOrder ex' (exchangeId ord) = Some (ord\<lparr> onList := False \<rparr>)"
    and "x \<notin> set (resting ex' instr s)" and "exchangeId ord = x"
proof -
  let ?st = "open_book ex b"
  from q obtain u' st where ob: "OrderBook_quote qs bp bq ap aq ?st = Some (Done u' st)"
    and ex': "ex' = close_book instr st ex"
    unfolding Exchange_quote_known [OF bk qs] by (auto split: option.splits outcome.splits)
  have bi: "book_inv instr ?st" using inv bk by (rule ex_inv_book(1))
  have ok: "pair_ok instr (heap ?st) qs"
    using quotes_okD [OF ex_inv_book(2) [OF inv bk] qs] by simp
  have hx': "heap ?st x = Some ord" using hx by simp
  note p = OrderBook_quote_pulled [OF ob bi ok x hx' z]
  have inv': "ex_inv ex'" using q by (rule Exchange_quote_ex_inv(2) [OF inv])
  have h': "heap ex' x = Some (ord\<lparr> onList := False \<rparr>)" using p(1) by (simp add: ex' close_book_def)
  show id: "exchangeId ord = x" using inv hx by (rule ex_inv_order(2))
  show "Exchange_getOrder ex' (exchangeId ord) = Some (ord\<lparr> onList := False \<rparr>)"
    unfolding id using inv' h' by (rule Exchange_getOrder_ex_inv)
  show "x \<notin> set (resting ex' instr s)"
    using resting_close_book [of instr st ex s] p(2) by (auto simp: ex')
qed

section \<open>What a cancellation does to the orders\<close>





section \<open>A submission the book rejects\<close>


lemma Exchange_cancel_out_of_bounds:
  assumes "OrderMap_bucket eid < 0"
  shows "Exchange_cancel eid sid ex = Fault OutOfBounds"
  using assms by (simp add: Exchange_cancel_def)

section \<open>Claims\<close>

text \<open>
  C1 (as the spec states it, refuted). The spec: every trade is made at the price of the
  passive order, and S1 gives one trade at 1.0. In S1 the only trade is not at the price
  of its passive order, the buy at 1.0.
\<close>

theorem C1_counterexample:
  "\<not> list_all (at_passive_price (heap (the (run S1 new_exchange))))
              (trades_of (events (the (run S1 new_exchange))))"
  by code_simp

text \<open>
  C1 (amended). Every trade \<open>matchOrders\<close> announces is made at the smaller of the two
  order prices, \<open>MIN(bid->_price, ask->_price)\<close>: the passive order's price when the
  aggressor buys, the aggressor's own price when it sells. S1 ends with exactly one
  trade, price 0.75 and quantity 10, the sell (id 2) as aggressor and the buy (id 1) as
  passive; both orders are filled, nothing rests on either ladder and the snapshot is empty.
\<close>

theorem C1_trade_at_lower_price:
  "(matchOrders sd st = Some (Done u st') \<longrightarrow>
      (\<exists>es. events st' = events st @ es
          \<and> (\<forall>t. OnTrade t \<in> set es \<longrightarrow> at_lower_price sd (heap st') t)))
   \<and> run S1 new_exchange \<noteq> None
   \<and> trades_of (events (the (run S1 new_exchange)))
        = [\<lparr> trade_price = Fin 7500000, trade_quantity = 10, aggressor = 2, opposite = 1 \<rparr>]
   \<and> map_option side (Exchange_getOrder (the (run S1 new_exchange)) 2) = Some SELL
   \<and> map_option side (Exchange_getOrder (the (run S1 new_exchange)) 1) = Some BUY
   \<and> map_option isFilled (Exchange_getOrder (the (run S1 new_exchange)) 1) = Some True
   \<and> map_option isFilled (Exchange_getOrder (the (run S1 new_exchange)) 2) = Some True
   \<and> resting (the (run S1 new_exchange)) ''SYM1'' BUY = []
   \<and> resting (the (run S1 new_exchange)) ''SYM1'' SELL = []
   \<and> Exchange_book (the (run S1 new_exchange)) ''SYM1''
        = Some \<lparr> book_bids = [], bidOrderIds = [], book_asks = [], askOrderIds = [] \<rparr>"
proof -
  have general: "matchOrders sd st = Some (Done u st') \<longrightarrow>
      (\<exists>es. events st' = events st @ es
          \<and> (\<forall>t. OnTrade t \<in> set es \<longrightarrow> at_lower_price sd (heap st') t))"
    using matchOrders_price by blast
  have s1: "run S1 new_exchange \<noteq> None" by code_simp
  have s2: "trades_of (events (the (run S1 new_exchange)))
        = [\<lparr> trade_price = Fin 7500000, trade_quantity = 10, aggressor = 2, opposite = 1 \<rparr>]"
    by code_simp
  have s3: "map_option side (Exchange_getOrder (the (run S1 new_exchange)) 2) = Some SELL"
    by code_simp
  have s4: "map_option side (Exchange_getOrder (the (run S1 new_exchange)) 1) = Some BUY"
    by code_simp
  have s5: "map_option isFilled (Exchange_getOrder (the (run S1 new_exchange)) 1) = Some True"
    by code_simp
  have s6: "map_option isFilled (Exchange_getOrder (the (run S1 new_exchange)) 2) = Some True"
    by code_simp
  have s7: "resting (the (run S1 new_exchange)) ''SYM1'' BUY = []" by code_simp
  have s8: "resting (the (run S1 new_exchange)) ''SYM1'' SELL = []" by code_simp
  have s9: "Exchange_book (the (run S1 new_exchange)) ''SYM1''
        = Some \<lparr> book_bids = [], bidOrderIds = [], book_asks = [], askOrderIds = [] \<rparr>"
    by code_simp
  from general s1 s2 s3 s4 s5 s6 s7 s8 s9 show ?thesis by blast
qed

theorem C1_trade_at_lower_price_witness:
  "\<exists>st'. matchOrders SELL crossed_book = Some (Done () st')
      \<and> (\<exists>es. events st' = events crossed_book @ es
           \<and> (\<forall>t. OnTrade t \<in> set es \<longrightarrow> at_lower_price SELL (heap st') t))
      \<and> trades_of (events st')
           = [\<lparr> trade_price = Fin 7500000, trade_quantity = 10, aggressor = 2, opposite = 1 \<rparr>]"
proof -
  have "returned (matchOrders SELL crossed_book) \<noteq> None" by code_simp
  then obtain st' where h: "matchOrders SELL crossed_book = Some (Done () st')"
    by (auto simp: returned_def split: option.splits outcome.splits)
  have t: "trades_of (events (the (returned (matchOrders SELL crossed_book))))
           = [\<lparr> trade_price = Fin 7500000, trade_quantity = 10, aggressor = 2, opposite = 1 \<rparr>]"
    by code_simp
  from h have "the (returned (matchOrders SELL crossed_book)) = st'"
    by (simp add: returned_def)
  with t h C1_trade_at_lower_price [of SELL crossed_book "()" st'] show ?thesis by auto
qed

text \<open>
  C3 (the code departs from the claim). \<open>OrderBook::insertOrder\<close> refuses
  \<open>remaining <= 0\<close>, and the factory of \<open>Exchange::quote\<close> creates a side only for a
  positive quantity, but \<open>OrderBook::quote\<close> re-arms a side whenever its quantity is not
  zero. Re-quoting an existing quote with bid quantity -5 leaves the bid order (id 1) on
  the bid ladder with remaining -5, and the snapshot shows the level (100, -5).
\<close>

theorem C3_negative_quote_rests:
  "run negative_requote new_exchange \<noteq> None
   \<and> resting (the (run negative_requote new_exchange)) ''SYM1'' BUY = [1]
   \<and> map_option remaining (Exchange_getOrder (the (run negative_requote new_exchange)) 1) = Some (- 5)
   \<and> map_option book_bids (Exchange_book (the (run negative_requote new_exchange)) ''SYM1'')
        = Some [(Fin 100, - 5)]"
proof -
  have a: "run negative_requote new_exchange \<noteq> None" by code_simp
  have b: "resting (the (run negative_requote new_exchange)) ''SYM1'' BUY = [1]" by code_simp
  have c: "map_option remaining (Exchange_getOrder (the (run negative_requote new_exchange)) 1) = Some (- 5)"
    by code_simp
  have d: "map_option book_bids (Exchange_book (the (run negative_requote new_exchange)) ''SYM1'')
        = Some [(Fin 100, - 5)]" by code_simp
  from a b c d show ?thesis by blast
qed

text \<open>
  C5 (the code departs from the claim). The first quote for a \<open>(sessionId, quoteId)\<close>
  makes the order of a side only when that side's quantity is positive, and
  \<open>OrderBook::quote\<close> then calls \<open>isOnList()\<close> through both pointers without a null
  check: whenever the pair is new and one of the two quantities is not positive, the call
  dereferences a null pointer. (\<open>insertOrder\<close> and \<open>cancelOrder\<close> do check for null.)
\<close>

theorem C5_first_quote_with_empty_side:
  assumes "case map_of (books ex) instr of
             Some b \<Rightarrow> the_quotes b (sid, qid) = None
           | None \<Rightarrow> length (books ex) < MAX_INSTRUMENTS"
    and "bidQuantity \<le> 0 \<or> askQuantity \<le> 0"
  shows "Exchange_quote sid instr bidPrice bidQuantity askPrice askQuantity qid ex
           = Some (Fault NullDereference)"
proof -
  obtain ex1 b where g: "getOrCreate instr ex = Done () ex1"
    and b: "map_of (books ex1) instr = Some b" and q: "the_quotes b (sid, qid) = None"
  proof (cases rule: getOrCreate_cases [of ex instr])
    case (known b)
    with assms(1) that show ?thesis by simp
  next
    case full
    with assms(1) show ?thesis by simp
  next
    case new
    with that [of "ex\<lparr> books := books ex @ [(instr, new_book)] \<rparr>" new_book] show ?thesis
      by (simp add: new_book_def)
  qed
  show ?thesis
  proof (cases "bidQuantity \<le> 0")
    case True
    then show ?thesis
      using g b q
      by (simp add: Exchange_quote_def createOrders_def create_quote_side_def
            OrderBook_quote_def remove_if_onList_def split: prod.splits)
  next
    case False
    with assms(2) have "askQuantity \<le> 0" by simp
    with False show ?thesis
      using g b q
      by (simp add: Exchange_quote_def createOrders_def create_quote_side_def create_order_def
            OrderBook_quote_def remove_if_onList_def open_book_def Order_create_def Let_def
            split: prod.splits)
  qed
qed

theorem C5_first_quote_with_empty_side_witness:
  "(case map_of (books new_exchange) ''SYM1'' of
      Some b \<Rightarrow> the_quotes b (''s'', ''q'') = None
    | None \<Rightarrow> length (books new_exchange) < MAX_INSTRUMENTS)
   \<and> ((0::int) \<le> 0 \<or> (20::int) \<le> 0)
   \<and> Exchange_quote ''s'' ''SYM1'' (Fin 100) 0 (Fin 101) 20 ''q'' new_exchange
        = Some (Fault NullDereference)"
proof -
  have h: "case map_of (books new_exchange) ''SYM1'' of
      Some b \<Rightarrow> the_quotes b (''s'', ''q'') = None
    | None \<Rightarrow> length (books new_exchange) < MAX_INSTRUMENTS"
    by (simp add: new_exchange_def MAX_INSTRUMENTS_def)
  have h2: "(0::int) \<le> 0 \<or> (20::int) \<le> 0" by simp
  from C5_first_quote_with_empty_side [OF h h2] h show ?thesis by simp
qed


text \<open>
  C7 (as the spec states it, refuted). The spec: an internal invariant violation is fatal
  and is never turned into an ordinary error return such as an empty submit result. On an
  exchange whose resting bid has no price level, a crossing sell makes the book remove
  that bid; \<open>removeOrder\<close> throws "price level for order does not exist" out of the
  book's \<open>insertOrder\<close>, and the submission returns the empty result.
\<close>

theorem C7_counterexample:
  "thrown_by (OrderBook_insertOrder (Some 2)
      (open_book (snd (create_order ''t'' ''2'' ''SYM1'' (Fin 80) 10 SELL broken_exchange))
                 (the (map_of (books broken_exchange) ''SYM1'')))) = Some NoPriceLevel
   \<and> value_of (Exchange_sell ''t'' ''SYM1'' (Fin 80) 10 ''2'' broken_exchange) = Some None"
proof -
  have a: "thrown_by (OrderBook_insertOrder (Some 2)
      (open_book (snd (create_order ''t'' ''2'' ''SYM1'' (Fin 80) 10 SELL broken_exchange))
                 (the (map_of (books broken_exchange) ''SYM1'')))) = Some NoPriceLevel"
    by code_simp
  have b: "value_of (Exchange_sell ''t'' ''SYM1'' (Fin 80) 10 ''2'' broken_exchange) = Some None"
    by code_simp
  from a b show ?thesis by blast
qed

text \<open>
  C7 (amended). An internal invariant violation raises \<open>std::runtime_error\<close>:
  \<open>OrderList::remove\<close> on an order whose handle is dead, and \<open>removeOrder\<close> on an order
  for whose price no level exists, throw without changing anything. What becomes of the
  exception depends on the entry point. \<open>Exchange::insertOrder\<close> never lets it out: when
  the book's \<open>insertOrder\<close> throws, the submission returns the empty result and keeps the
  state as it was at the throw. \<open>Exchange::cancel\<close> has no handler: when the book's
  \<open>cancelOrder\<close> throws, the exception leaves the public call.
\<close>

theorem C7_exceptions:
  "(h a = Some ord \<and> \<not> onList ord \<longrightarrow> remove a (h, l) = Throw NodeNullOnRemoval (h, l))
   \<and> (h a = Some ord \<and> (\<forall>l\<in>set L. level_price l \<noteq> price ord) \<longrightarrow>
        PriceLevels_removeOrder asc a (h, L) = Throw NoPriceLevel (h, L))
   \<and> Exchange_insertOrder sid instr p q sd oid ex \<noteq> Some (Throw e ex')
   \<and> (map_of (books ex) instr = Some b \<and> create_order sid oid instr p q sd ex = (n, exb)
        \<and> OrderBook_insertOrder (Some n) (open_book exb b) = Some (Throw e st) \<longrightarrow>
        Exchange_insertOrder sid instr p q sd oid ex = Some (Done None (close_book instr st exb)))
   \<and> (OrderMap_get ex eid = Some a' \<and> heap ex a' = Some ord' \<and> sessionId ord' = sid
        \<and> map_of (books ex) (instrument ord') = Some b'
        \<and> OrderBook_cancelOrder (Some a') (open_book ex b') = Throw e st' \<longrightarrow>
        Exchange_cancel eid sid ex = Throw e (close_book (instrument ord') st' ex))"
proof (intro conjI impI)
  assume "h a = Some ord \<and> \<not> onList ord"
  then show "remove a (h, l) = Throw NodeNullOnRemoval (h, l)"
    by (simp add: remove_dead_handle)
next
  assume "h a = Some ord \<and> (\<forall>l\<in>set L. level_price l \<noteq> price ord)"
  then show "PriceLevels_removeOrder asc a (h, L) = Throw NoPriceLevel (h, L)"
    by (simp add: PriceLevels_removeOrder_no_level)
next
  show "Exchange_insertOrder sid instr p q sd oid ex \<noteq> Some (Throw e ex')"
    by (rule Exchange_insertOrder_never_throws)
next
  assume "map_of (books ex) instr = Some b \<and> create_order sid oid instr p q sd ex = (n, exb)
        \<and> OrderBook_insertOrder (Some n) (open_book exb b) = Some (Throw e st)"
  then show "Exchange_insertOrder sid instr p q sd oid ex = Some (Done None (close_book instr st exb))"
    by (simp add: Exchange_insertOrder_catches)
next
  assume "OrderMap_get ex eid = Some a' \<and> heap ex a' = Some ord' \<and> sessionId ord' = sid
        \<and> map_of (books ex) (instrument ord') = Some b'
        \<and> OrderBook_cancelOrder (Some a') (open_book ex b') = Throw e st'"
  then show "Exchange_cancel eid sid ex = Throw e (close_book (instrument ord') st' ex)"
    by (simp add: Exchange_cancel_propagates)
qed


theorem C7_exceptions_witness:
  "remove 1 ([1 \<mapsto> Order_create ''s'' ''1'' ''SYM1'' (Fin 90) 10 BUY 1], \<lparr> level_price = Fin 90, nodes = [1] \<rparr>)
     = Throw NodeNullOnRemoval
         ([1 \<mapsto> Order_create ''s'' ''1'' ''SYM1'' (Fin 90) 10 BUY 1], \<lparr> level_price = Fin 90, nodes = [1] \<rparr>)
   \<and> PriceLevels_removeOrder False 1 (heap broken_exchange, [\<lparr> level_price = Fin 100, nodes = [1] \<rparr>])
     = Throw NoPriceLevel (heap broken_exchange, [\<lparr> level_price = Fin 100, nodes = [1] \<rparr>])
   \<and> (\<exists>b ex2 st. map_of (books broken_exchange) ''SYM1'' = Some b
        \<and> create_order ''t'' ''2'' ''SYM1'' (Fin 80) 10 SELL broken_exchange = (2, ex2)
        \<and> OrderBook_insertOrder (Some 2) (open_book ex2 b) = Some (Throw NoPriceLevel st)
        \<and> Exchange_insertOrder ''t'' ''SYM1'' (Fin 80) 10 SELL ''2'' broken_exchange
             = Some (Done None (close_book ''SYM1'' st ex2)))
   \<and> (\<exists>b ord st. OrderMap_get broken_exchange 1 = Some 1 \<and> heap broken_exchange 1 = Some ord
        \<and> sessionId ord = ''s'' \<and> map_of (books broken_exchange) (instrument ord) = Some b
        \<and> OrderBook_cancelOrder (Some 1) (open_book broken_exchange b) = Throw NoPriceLevel st
        \<and> Exchange_cancel 1 ''s'' broken_exchange = Throw NoPriceLevel (close_book (instrument ord) st broken_exchange))"
proof -
  let ?plain = "Order_create ''s'' ''1'' ''SYM1'' (Fin 90) 10 BUY 1"
  let ?linked = "?plain\<lparr> onList := True \<rparr>"
  let ?l = "\<lparr> level_price = Fin 90, nodes = [1] \<rparr>"
  let ?L = "[\<lparr> level_price = Fin 100, nodes = [1::nat] \<rparr>]"
  let ?b = "\<lparr> the_bids = ?L, the_asks = [], the_quotes = (\<lambda>k. None) \<rparr>"
  have c1: "remove 1 ([1 \<mapsto> ?plain], ?l) = Throw NodeNullOnRemoval ([1 \<mapsto> ?plain], ?l)"
    using C7_exceptions [where h = "[1 \<mapsto> ?plain]" and a = 1 and ord = ?plain and l = ?l]
    by (simp add: Order_create_def)
  have hb: "heap broken_exchange 1 = Some ?linked"
    by (simp add: broken_exchange_def)
  have c2: "PriceLevels_removeOrder False 1 (heap broken_exchange, ?L)
      = Throw NoPriceLevel (heap broken_exchange, ?L)"
    using C7_exceptions [where h = "heap broken_exchange" and a = 1 and ord = ?linked and L = ?L and asc = False] hb
    by (simp add: Order_create_def)
  have bk: "map_of (books broken_exchange) ''SYM1'' = Some ?b"
    by (simp add: broken_exchange_def)
  obtain ex2 where co: "create_order ''t'' ''2'' ''SYM1'' (Fin 80) 10 SELL broken_exchange = (2, ex2)"
    by (simp add: create_order_def broken_exchange_def)
  have "thrown_by (OrderBook_insertOrder (Some 2)
      (open_book (snd (create_order ''t'' ''2'' ''SYM1'' (Fin 80) 10 SELL broken_exchange)) ?b)) = Some NoPriceLevel"
    by code_simp
  then obtain st where th: "OrderBook_insertOrder (Some 2) (open_book ex2 ?b) = Some (Throw NoPriceLevel st)"
    using co by (auto simp: thrown_by_def split: option.splits outcome.splits)
  have c3: "Exchange_insertOrder ''t'' ''SYM1'' (Fin 80) 10 SELL ''2'' broken_exchange
             = Some (Done None (close_book ''SYM1'' st ex2))"
    using C7_exceptions [where ex = broken_exchange and instr = "''SYM1''" and b = ?b and sid = "''t''"
        and oid = "''2''" and p = "Fin 80" and q = 10 and sd = SELL and n = 2 and exb = ex2
        and e = NoPriceLevel and st = st] bk co th
    by simp
  have og: "OrderMap_get broken_exchange 1 = Some 1"
    by (simp add: OrderMap_get_def broken_exchange_def Order_create_def)
  have bk': "map_of (books broken_exchange) (instrument ?linked) = Some ?b"
    by (simp add: broken_exchange_def Order_create_def)
  have "thrown_by (Some (OrderBook_cancelOrder (Some 1) (open_book broken_exchange ?b))) = Some NoPriceLevel"
    by code_simp
  then obtain st' where th': "OrderBook_cancelOrder (Some 1) (open_book broken_exchange ?b) = Throw NoPriceLevel st'"
    by (auto simp: thrown_by_def split: outcome.splits)
  have sess: "sessionId ?linked = ''s''" by (simp add: Order_create_def)
  have c4: "Exchange_cancel 1 ''s'' broken_exchange
      = Throw NoPriceLevel (close_book (instrument ?linked) st' broken_exchange)"
    using C7_exceptions [where ex = broken_exchange and eid = 1 and a' = 1 and ord' = ?linked
        and sid = "''s''" and b' = ?b and e = NoPriceLevel and st' = st'] og hb sess bk' th'
    by simp
  from c1 c2 bk co th c3 og hb sess bk' th' c4 show ?thesis by blast
qed

text \<open>
  C4 (as the spec states it, refuted). The spec: re-arming a side resets \<open>avgPrice\<close> and
  \<open>cumQty\<close> to 0 along with \<open>filled\<close>. The bid of a quote is filled for 4 at 100 and
  the quote is then sent again with the bid at 99: the third call makes no trade, it
  leaves the bid re-armed (remaining 10, filled 0, price 99), and \<open>cumQty\<close> is still 4
  and \<open>avgPrice\<close> still 100.
\<close>

theorem C4_counterexample:
  "length (trades_of (events (the (run requote_after_fill new_exchange))))
     = length (trades_of (events (the (run (butlast requote_after_fill) new_exchange))))
   \<and> map_option remaining (Exchange_getOrder (the (run requote_after_fill new_exchange)) 1) = Some 10
   \<and> map_option filled (Exchange_getOrder (the (run requote_after_fill new_exchange)) 1) = Some 0
   \<and> map_option price (Exchange_getOrder (the (run requote_after_fill new_exchange)) 1) = Some (Fin 99)
   \<and> map_option cumQty (Exchange_getOrder (the (run requote_after_fill new_exchange)) 1) = Some 4
   \<and> map_option avgPrice (Exchange_getOrder (the (run requote_after_fill new_exchange)) 1) = Some (Fin 100)"
proof -
  have a: "length (trades_of (events (the (run requote_after_fill new_exchange))))
     = length (trades_of (events (the (run (butlast requote_after_fill) new_exchange))))"
    by code_simp
  have b: "map_option remaining (Exchange_getOrder (the (run requote_after_fill new_exchange)) 1) = Some 10"
    by code_simp
  have c: "map_option filled (Exchange_getOrder (the (run requote_after_fill new_exchange)) 1) = Some 0"
    by code_simp
  have d: "map_option price (Exchange_getOrder (the (run requote_after_fill new_exchange)) 1) = Some (Fin 99)"
    by code_simp
  have e: "map_option cumQty (Exchange_getOrder (the (run requote_after_fill new_exchange)) 1) = Some 4"
    by code_simp
  have f: "map_option avgPrice (Exchange_getOrder (the (run requote_after_fill new_exchange)) 1) = Some (Fin 100)"
    by code_simp
  from a b c d e f show ?thesis by blast
qed

text \<open>
  C4 (amended). A call of \<open>OrderBook::quote\<close> that returns has found both orders of the
  pair, has taken each off its ladder if it was on one, and has then treated the bid and
  after it the ask as follows. A side whose target quantity is zero is left as it is. A
  side whose target quantity is not zero gets \<open>price\<close> and \<open>quantity\<close> set to the
  targets, \<open>remaining\<close> to the target quantity and \<open>filled\<close> to 0, while \<open>avgPrice\<close>
  and \<open>cumQty\<close> keep their values; the order is appended to the level of its new price
  on its side's ladder, and \<open>matchOrders\<close> runs with that side as aggressor.
\<close>

theorem C4_quote_rearms:
  "(OrderBook_quote qs bp bq ap aq st = Some (Done u st') \<longrightarrow>
      (\<exists>b a st1 st2 st3. quote_bid qs = Some b \<and> quote_ask qs = Some a
           \<and> remove_if_onList BUY (Some b) st = Done () st1
           \<and> remove_if_onList SELL (Some a) st1 = Done () st2
           \<and> quote_side BUY (Some b) bp bq st2 = Some (Done () st3)
           \<and> quote_side SELL (Some a) ap aq st3 = Some (Done u st')))
   \<and> quote_side sd order p 0 s = Some (Done () s)
   \<and> (quote_side sd (Some x) p q s = Some (Done v s') \<and> q \<noteq> 0 \<longrightarrow>
        (\<exists>ord sa. heap s x = Some ord \<and> \<not> onList ord
           \<and> side_insertOrder sd x (s\<lparr> heap := (heap s)(x \<mapsto> rearm p q ord) \<rparr>) = Done () sa
           \<and> heap sa = (heap s)(x \<mapsto> ord\<lparr> price := p, quantity := q, remaining := q,
                                            filled := 0, onList := True \<rparr>)
           \<and> (\<exists>l\<in>set (ladder sd sa). level_price l = p \<and> x \<in> set (nodes l))
           \<and> matchOrders sd sa = Some (Done v s')))"
proof (intro conjI impI)
  assume "OrderBook_quote qs bp bq ap aq st = Some (Done u st')"
  then show "\<exists>b a st1 st2 st3. quote_bid qs = Some b \<and> quote_ask qs = Some a
           \<and> remove_if_onList BUY (Some b) st = Done () st1
           \<and> remove_if_onList SELL (Some a) st1 = Done () st2
           \<and> quote_side BUY (Some b) bp bq st2 = Some (Done () st3)
           \<and> quote_side SELL (Some a) ap aq st3 = Some (Done u st')"
    by (rule OrderBook_quote_Done)
next
  show "quote_side sd order p 0 s = Some (Done () s)" by (rule quote_side_zero)
next
  assume "quote_side sd (Some x) p q s = Some (Done v s') \<and> q \<noteq> 0"
  then show "\<exists>ord sa. heap s x = Some ord \<and> \<not> onList ord
           \<and> side_insertOrder sd x (s\<lparr> heap := (heap s)(x \<mapsto> rearm p q ord) \<rparr>) = Done () sa
           \<and> heap sa = (heap s)(x \<mapsto> ord\<lparr> price := p, quantity := q, remaining := q,
                                            filled := 0, onList := True \<rparr>)
           \<and> (\<exists>l\<in>set (ladder sd sa). level_price l = p \<and> x \<in> set (nodes l))
           \<and> matchOrders sd sa = Some (Done v s')"
    using quote_side_Done by blast
qed


theorem C4_quote_rearms_witness:
  "\<exists>st' st2 st3 ord sa.
      OrderBook_quote \<lparr> quote_bid = Some 1, quote_ask = Some 2 \<rparr> (Fin 99) 10 (Fin 101) 20 quoted_book
        = Some (Done () st')
      \<and> quote_side BUY (Some 1) (Fin 99) 10 st2 = Some (Done () st3)
      \<and> (10::int) \<noteq> 0
      \<and> heap st2 1 = Some ord \<and> \<not> onList ord
      \<and> heap sa = (heap st2)(1 \<mapsto> ord\<lparr> price := Fin 99, quantity := 10, remaining := 10,
                                          filled := 0, onList := True \<rparr>)
      \<and> matchOrders BUY sa = Some (Done () st3)
      \<and> quote_side SELL (Some 2) (Fin 101) 20 st3 = Some (Done () st')
      \<and> quote_side SELL None (Fin 101) 0 quoted_book = Some (Done () quoted_book)"
proof -
  let ?qs = "\<lparr> quote_bid = Some 1, quote_ask = Some 2 \<rparr>"
  have "returned (OrderBook_quote ?qs (Fin 99) 10 (Fin 101) 20 quoted_book) \<noteq> None"
    by code_simp
  then obtain st' where h: "OrderBook_quote ?qs (Fin 99) 10 (Fin 101) 20 quoted_book = Some (Done () st')"
    by (auto simp: returned_def split: option.splits outcome.splits)
  from C4_quote_rearms [THEN conjunct1, rule_format, OF h]
  obtain st2 st3 where q1: "quote_side BUY (Some 1) (Fin 99) 10 st2 = Some (Done () st3)"
    and q2: "quote_side SELL (Some 2) (Fin 101) 20 st3 = Some (Done () st')"
    by auto
  have ne: "(10::int) \<noteq> 0" by simp
  from C4_quote_rearms [THEN conjunct2, THEN conjunct2, rule_format, OF conjI [OF q1 ne]]
  obtain ord sa where "heap st2 1 = Some ord" "\<not> onList ord"
    "heap sa = (heap st2)(1 \<mapsto> ord\<lparr> price := Fin 99, quantity := 10, remaining := 10,
                                        filled := 0, onList := True \<rparr>)"
    "matchOrders BUY sa = Some (Done () st3)"
    by blast
  moreover have "quote_side SELL None (Fin 101) 0 quoted_book = Some (Done () quoted_book)"
    by (rule C4_quote_rearms [THEN conjunct2, THEN conjunct1])
  ultimately show ?thesis using h q1 q2 ne by blast
qed


text \<open>
  C9. In every state the public calls lead to from a new exchange, a submission and a
  quote always come back (with a result, an exception or a fault), so the matching loop
  inside them has ended; and every book then has sound ladders: no order is on a ladder
  twice, and every order on a ladder exists, is of that side and instrument and sits in
  the level of its price. On every book with sound ladders the loop ends. Each pass that
  trades and goes on trades the smaller of the remaining quantities of the two front
  orders; at least one of the two then has \<open>remaining = 0\<close> and is off the ladders; the
  number of orders on the ladders is strictly smaller and the ladders are sound again.
\<close>

theorem C9_matching_loop_terminates:
  "(reachable ex \<longrightarrow>
      (\<exists>r. Exchange_insertOrder sid instr p q sd oid ex = Some r)
      \<and> (\<exists>r. Exchange_quote sid instr bp bq ap aq qid ex = Some r)
      \<and> (\<forall>i b. map_of (books ex) i = Some b \<longrightarrow> book_inv i (open_book ex b)))
   \<and> (book_inv n st \<longrightarrow>
        (\<exists>r. matchLoop aggr st = Some r)
        \<and> (\<forall>st'. matchIteration aggr st = Done True st' \<longrightarrow>
              (\<exists>b a bo ao t. PriceLevels_front (heap st) (bids st) = Some b
                 \<and> PriceLevels_front (heap st) (asks st) = Some a
                 \<and> heap st b = Some bo \<and> heap st a = Some ao
                 \<and> last (events st') = OnTrade t
                 \<and> trade_quantity t = min (remaining bo) (remaining ao)
                 \<and> ((map_option remaining (heap st' b) = Some 0 \<and> b \<notin> ladder_nodes st')
                     \<or> (map_option remaining (heap st' a) = Some 0 \<and> a \<notin> ladder_nodes st')))
              \<and> resting_count st' < resting_count st
              \<and> book_inv n st'))"
proof (intro conjI impI allI)
  assume "reachable ex"
  then have inv: "ex_inv ex" by (rule reachable_ex_inv)
  show "\<exists>r. Exchange_insertOrder sid instr p q sd oid ex = Some r"
    using inv by (rule Exchange_insertOrder_ex_inv(1))
  show "\<exists>r. Exchange_quote sid instr bp bq ap aq qid ex = Some r"
    using inv by (rule Exchange_quote_ex_inv(1))
  show "book_inv i (open_book ex b)" if "map_of (books ex) i = Some b" for i b
    using inv that by (rule ex_inv_book(1))
next
  assume "book_inv n st"
  then show "\<exists>r. matchLoop aggr st = Some r" by (rule matchLoop_terminates)
next
  fix st'
  assume inv: "book_inv n st" and it: "matchIteration aggr st = Done True st'"
  show "\<exists>b a bo ao t. PriceLevels_front (heap st) (bids st) = Some b
          \<and> PriceLevels_front (heap st) (asks st) = Some a
          \<and> heap st b = Some bo \<and> heap st a = Some ao
          \<and> last (events st') = OnTrade t
          \<and> trade_quantity t = min (remaining bo) (remaining ao)
          \<and> ((map_option remaining (heap st' b) = Some 0 \<and> b \<notin> ladder_nodes st')
              \<or> (map_option remaining (heap st' a) = Some 0 \<and> a \<notin> ladder_nodes st'))"
    using it inv by (rule matchIteration_trade)
  show "resting_count st' < resting_count st" using it inv by (rule matchIteration_decreases)
  show "book_inv n st'" using it inv by (rule matchIteration_book_inv)
qed

theorem C9_matching_loop_terminates_witness:
  "\<exists>ex st' r1 r2 r3.
      run S1 new_exchange = Some ex \<and> reachable ex
      \<and> Exchange_insertOrder ''s'' ''SYM1'' (Fin 100) 5 BUY ''3'' ex = Some r1
      \<and> Exchange_quote ''s'' ''SYM1'' (Fin 100) 10 (Fin 101) 20 ''q'' ex = Some r2
      \<and> book_inv ''SYM1'' crossed_book
      \<and> matchLoop SELL crossed_book = Some r3
      \<and> matchIteration SELL crossed_book = Done True st'
      \<and> resting_count st' < resting_count crossed_book
      \<and> book_inv ''SYM1'' st'"
proof -
  have "run S1 new_exchange \<noteq> None" by code_simp
  then obtain ex where r: "run S1 new_exchange = Some ex" by blast
  have re: "reachable ex" using reachable_new r by (rule run_reachable)
  have bi: "book_inv ''SYM1'' crossed_book" by code_simp
  have "(case matchIteration SELL crossed_book of Done c s \<Rightarrow> c | _ \<Rightarrow> False)" by code_simp
  then obtain st' where it: "matchIteration SELL crossed_book = Done True st'"
    by (auto split: outcome.splits)
  note th = C9_matching_loop_terminates [where ex = ex and sid = "''s''" and instr = "''SYM1''"
      and p = "Fin 100" and q = 5 and sd = BUY and oid = "''3''" and bp = "Fin 100" and bq = 10
      and ap = "Fin 101" and aq = 20 and qid = "''q''" and n = "''SYM1''" and st = crossed_book
      and aggr = SELL]
  from th [THEN conjunct1, rule_format, OF re]
  obtain r1 r2 where "Exchange_insertOrder ''s'' ''SYM1'' (Fin 100) 5 BUY ''3'' ex = Some r1"
    and "Exchange_quote ''s'' ''SYM1'' (Fin 100) 10 (Fin 101) 20 ''q'' ex = Some r2" by blast
  moreover from th [THEN conjunct2, rule_format, OF bi]
  obtain r3 where "matchLoop SELL crossed_book = Some r3"
    and "resting_count st' < resting_count crossed_book \<and> book_inv ''SYM1'' st'"
    using it by blast
  ultimately show ?thesis using r re bi it by blast
qed

text \<open>
  C10. Let a quote call return in a state the public calls lead to, for a quote pair the
  book already holds, with target quantity zero on a side. Then the order of the pair on
  that side is on no ladder afterwards, and \<open>getOrder\<close> returns it with every field as
  before the call (\<open>remaining\<close>, \<open>filled\<close>, \<open>avgPrice\<close>, \<open>cumQty\<close>, price and quantity
  among them), only its list handle cleared; so \<open>isActive\<close> is as before, and the order
  reports as active when its \<open>remaining\<close> was positive.
\<close>

theorem C10_zero_target_pulls_quote:
  assumes "reachable ex"
    and "map_of (books ex) instr = Some b" and "the_quotes b (sid, qid) = Some qs"
    and "quote_order sd qs = Some x" and "heap ex x = Some ord"
    and "target_quantity sd bq aq = 0"
    and "Exchange_quote sid instr bp bq ap aq qid ex = Some (Done u ex')"
  shows "Exchange_getOrder ex' (exchangeId ord) = Some (ord\<lparr> onList := False \<rparr>)
         \<and> x \<notin> set (resting ex' instr BUY) \<and> x \<notin> set (resting ex' instr SELL)
         \<and> isActive (ord\<lparr> onList := False \<rparr>) = isActive ord
         \<and> (0 < remaining ord \<longrightarrow> isActive (ord\<lparr> onList := False \<rparr>))"
proof -
  from assms(1) have inv: "ex_inv ex" by (rule reachable_ex_inv)
  note p = Exchange_quote_pulled [OF inv assms(2-7)]
  show ?thesis using p(1) p(2) [of BUY] p(2) [of SELL] by (simp add: isActive_def)
qed

theorem C10_zero_target_pulls_quote_witness:
  "\<exists>ex ex' ord.
      run quote_once new_exchange = Some ex \<and> reachable ex
      \<and> heap ex 1 = Some ord \<and> 1 \<in> set (resting ex ''SYM1'' BUY) \<and> 0 < remaining ord
      \<and> Exchange_quote ''s'' ''SYM1'' (Fin 100) 0 (Fin 101) 20 ''q'' ex = Some (Done () ex')
      \<and> Exchange_getOrder ex' 1 = Some (ord\<lparr> onList := False \<rparr>)
      \<and> 1 \<notin> set (resting ex' ''SYM1'' BUY)
      \<and> isActive (ord\<lparr> onList := False \<rparr>)"
proof -
  have "run quote_once new_exchange \<noteq> None" by code_simp
  then obtain ex where r: "run quote_once new_exchange = Some ex" by blast
  then have ex: "ex = the (run quote_once new_exchange)" by simp
  have re: "reachable ex" using reachable_new r by (rule run_reachable)
  have "map_of (books (the (run quote_once new_exchange))) ''SYM1'' \<noteq> None" by code_simp
  then obtain b where bk: "map_of (books ex) ''SYM1'' = Some b" unfolding ex by blast
  then have b: "b = the (map_of (books (the (run quote_once new_exchange))) ''SYM1'')"
    unfolding ex by simp
  have qs: "the_quotes b (''s'', ''q'') = Some \<lparr> quote_bid = Some 1, quote_ask = Some 2 \<rparr>"
    unfolding b by code_simp
  have x: "quote_order BUY \<lparr> quote_bid = Some 1, quote_ask = Some 2 \<rparr> = Some 1"
    by (simp add: quote_order_def)
  have "heap (the (run quote_once new_exchange)) 1 \<noteq> None" by code_simp
  then obtain ord where h: "heap ex 1 = Some ord" unfolding ex by blast
  have "map_option remaining (heap (the (run quote_once new_exchange)) 1) = Some 10" by code_simp
  with h have rem: "0 < remaining ord" unfolding ex by auto
  have "map_option exchangeId (heap (the (run quote_once new_exchange)) 1) = Some 1" by code_simp
  with h have eid: "exchangeId ord = 1" unfolding ex by auto
  have rest: "1 \<in> set (resting ex ''SYM1'' BUY)" unfolding ex by code_simp
  have z: "target_quantity BUY 0 20 = 0" by (simp add: target_quantity_def)
  have "returned (Exchange_quote ''s'' ''SYM1'' (Fin 100) 0 (Fin 101) 20 ''q''
          (the (run quote_once new_exchange))) \<noteq> None" by code_simp
  then obtain ex' where q: "Exchange_quote ''s'' ''SYM1'' (Fin 100) 0 (Fin 101) 20 ''q'' ex
      = Some (Done () ex')"
    unfolding ex by (auto simp: returned_def split: option.splits outcome.splits)
  from C10_zero_target_pulls_quote [OF re bk qs x h z q] eid rem r re h rest q
  show ?thesis by auto
qed





text \<open>
  C8. \<open>Exchange::cancel\<close> takes any \<open>long\<close> as the exchange id, and \<open>OrderMap::get\<close>
  indexes its table with \<open>exchangeId % TABLE_SIZE\<close>. For a negative id that is no
  multiple of the table size, \<open>-1\<close> among them, the index is negative and the table is
  read outside its bounds: in every state of the exchange and for every session the
  first call already has no defined result. For no id from 0 on does that happen. Every
  call that does return is idempotent in effect: the same call made again returns
  \<open>false\<close> and leaves the whole state of the exchange as it was (the orders, the ladders,
  hence the snapshot, and the listener's log), however often it is repeated.
\<close>

theorem C8_cancel_negative_id:
  "(eid < 0 \<and> (- eid) mod TABLE_SIZE \<noteq> 0 \<longrightarrow> Exchange_cancel eid sid ex = Fault OutOfBounds)
   \<and> Exchange_cancel (- 1) sid ex = Fault OutOfBounds
   \<and> (0 \<le> eid \<longrightarrow> Exchange_cancel eid sid ex \<noteq> Fault OutOfBounds)
   \<and> (Exchange_cancel eid sid ex = Done r ex' \<longrightarrow>
        Exchange_cancel eid sid ex' = Done False ex'
        \<and> run (replicate n (Cancel eid sid)) ex' = Some ex')"
proof (intro conjI impI)
  assume "eid < 0 \<and> (- eid) mod TABLE_SIZE \<noteq> 0"
  then have "OrderMap_bucket eid < 0" by (simp add: OrderMap_bucket_negative)
  then show "Exchange_cancel eid sid ex = Fault OutOfBounds" by (rule Exchange_cancel_out_of_bounds)
next
  have "OrderMap_bucket (- 1) < 0" by (simp add: OrderMap_bucket_def TABLE_SIZE_def)
  then show "Exchange_cancel (- 1) sid ex = Fault OutOfBounds" by (rule Exchange_cancel_out_of_bounds)
next
  assume "0 \<le> eid"
  then have inb: "\<not> OrderMap_bucket eid < 0" by (rule OrderMap_bucket_nonneg)
  show "Exchange_cancel eid sid ex \<noteq> Fault OutOfBounds"
  proof
    assume f: "Exchange_cancel eid sid ex = Fault OutOfBounds"
    show False
    proof (cases "OrderMap_get ex eid")
      case None
      with f inb show False by (simp add: Exchange_cancel_def)
    next
      case (Some a)
      from OrderMap_get_Some [OF Some] obtain ord where ha: "heap ex a = Some ord" by blast
      show False
      proof (cases "sessionId ord = sid")
        case False
        with f inb Some ha show False by (simp add: Exchange_cancel_def)
      next
        case sess: True
        show False
        proof (cases "map_of (books ex) (instrument ord)")
          case None
          with f inb Some ha sess show False by (simp add: Exchange_cancel_def)
        next
          case bk: (Some b)
          have nf: "OrderBook_cancelOrder (Some a) (open_book ex b) \<noteq> Fault OutOfBounds"
          proof (cases "onList ord \<and> 0 < remaining ord")
            case False
            with ha show ?thesis by (auto simp: OrderBook_cancelOrder_def Let_def open_book_def)
          next
            case True
            let ?st1 = "(open_book ex b)\<lparr> heap := (heap (open_book ex b))(a \<mapsto> cancel ord) \<rparr>"
            have "side_removeOrder (side ord) a ?st1 \<noteq> Fault OutOfBounds"
              by (auto simp: side_removeOrder_def PriceLevels_removeOrder_def remove_def Let_def
                    split: outcome.splits option.splits if_splits prod.splits)
            with ha True show ?thesis
              by (auto simp: OrderBook_cancelOrder_def Let_def open_book_def split: outcome.splits)
          qed
          with f inb Some ha sess bk show False
            by (auto simp: Exchange_cancel_def split: outcome.splits)
        qed
      qed
    qed
  qed
next
  assume c: "Exchange_cancel eid sid ex = Done r ex'"
  then show again: "Exchange_cancel eid sid ex' = Done False ex'" by (rule Exchange_cancel_again)
  show "run (replicate n (Cancel eid sid)) ex' = Some ex'"
    by (induction n) (simp_all add: again returned_def)
qed

theorem C8_cancel_negative_id_witness:
  "Exchange_cancel (- 1) ''s'' new_exchange = Fault OutOfBounds
   \<and> (\<exists>ex'. Exchange_cancel 1 ''s'' (the (run [Buy ''s'' ''SYM1'' (Fin 100) 20 ''1''] new_exchange))
               = Done True ex'
          \<and> Exchange_cancel 1 ''s'' ex' = Done False ex'
          \<and> run (replicate 3 (Cancel 1 ''s'')) ex' = Some ex')"
proof -
  let ?ex = "the (run [Buy ''s'' ''SYM1'' (Fin 100) 20 ''1''] new_exchange)"
  have neg: "(- 1 :: int) < 0 \<and> (- (- 1 :: int)) mod TABLE_SIZE \<noteq> 0"
    by (simp add: TABLE_SIZE_def)
  have a: "Exchange_cancel (- 1) ''s'' new_exchange = Fault OutOfBounds"
    using C8_cancel_negative_id [where eid = "- 1" and sid = "''s''" and ex = new_exchange,
        THEN conjunct1, rule_format, OF neg] .
  have "value_of (Some (Exchange_cancel 1 ''s'' ?ex)) = Some True" by code_simp
  then obtain ex' where h: "Exchange_cancel 1 ''s'' ?ex = Done True ex'"
    by (auto simp: value_of_def split: outcome.splits)
  from C8_cancel_negative_id [where eid = 1 and sid = "''s''" and ex = ?ex and r = True
      and ex' = ex' and n = 3, THEN conjunct2, THEN conjunct2, THEN conjunct2, rule_format, OF h]
    a h
  show ?thesis by blast
qed

end
